theory Spec2Isabelle
  imports Main
begin

section \<open>Python values used by the analysers\<close>

text \<open>
  The repository holds three overlapping analysers of Unity assembly definitions:
  \<^verbatim>\<open>Tools/dependency_analyzer.py\<close> (class \<^verbatim>\<open>DependencyAnalyzer\<close>),
  \<^verbatim>\<open>analyze_circular_deps.py\<close> (module level functions) and
  \<^verbatim>\<open>Assets/ProjectChimera/Data/Genetics/assembly_dependency_analyzer.py\<close>
  (class \<^verbatim>\<open>AssemblyDependencyAnalyzer\<close>). Module names are Python strings.
  The exceptions the modelled code can raise are values of \<open>error\<close>; a function that can
  raise returns \<open>error + 'a\<close>.
\<close>

type_synonym name = string

datatype error = ValueError | KeyError | IndexError

text \<open>
  A Python \<^verbatim>\<open>dict\<close> that is iterated is an association list in insertion order with
  distinct keys. \<open>dict_set\<close> is \<^verbatim>\<open>d[k] = v\<close>: an existing key keeps its position and
  takes the new value, a new key goes to the end. \<open>dict_get d k dflt\<close> is
  \<^verbatim>\<open>d.get(k, dflt)\<close>, \<open>dict_keys\<close> is the order in which \<^verbatim>\<open>for k in d\<close> runs, and
  \<open>k \<in> set (dict_keys d)\<close> is \<^verbatim>\<open>k in d\<close>.
\<close>

type_synonym 'v dict = "(name \<times> 'v) list"

definition dict_keys :: "'v dict \<Rightarrow> name list" where
  "dict_keys d = map fst d"

definition dict_get :: "'v dict \<Rightarrow> name \<Rightarrow> 'v \<Rightarrow> 'v" where
  "dict_get d k dflt = (case map_of d k of None \<Rightarrow> dflt | Some v \<Rightarrow> v)"

fun dict_set :: "'v dict \<Rightarrow> name \<Rightarrow> 'v \<Rightarrow> 'v dict" where
  "dict_set [] k v = [(k, v)]"
| "dict_set ((k', v') # d) k v = (if k' = k then (k, v) # d else (k', v') # dict_set d k v)"

text \<open>\<^verbatim>\<open>xs.index(x)\<close>: the first position of \<open>x\<close>; \<open>None\<close> where Python raises ValueError.\<close>

fun list_index :: "'a list \<Rightarrow> 'a \<Rightarrow> nat option" where
  "list_index [] x = None"
| "list_index (y # ys) x = (if y = x then Some 0 else map_option Suc (list_index ys x))"

text \<open>\<^verbatim>\<open>s.startswith(p)\<close> and the substring test \<^verbatim>\<open>sub in s\<close> on strings.\<close>

fun startswith :: "string \<Rightarrow> string \<Rightarrow> bool" where
  "startswith s [] = True"
| "startswith [] (p # ps) = False"
| "startswith (c # cs) (p # ps) = (c = p \<and> startswith cs ps)"

fun str_contains :: "string \<Rightarrow> string \<Rightarrow> bool" where
  "str_contains sub [] = (sub = [])"
| "str_contains sub (c # cs) = (startswith (c # cs) sub \<or> str_contains sub cs)"

text \<open>
  A Python \<^verbatim>\<open>set\<close> that is only tested, added to and removed from is a HOL set. A set
  that a \<^verbatim>\<open>for\<close> loop runs over is the duplicate-free list of its elements in the order
  the loop visits them; \<open>set_add\<close> is \<^verbatim>\<open>s.add(x)\<close> on that representation. CPython visits
  a set of strings in hash order, so properties of the traversals are stated for every
  list, hence for every order.
\<close>

definition set_add :: "name list \<Rightarrow> name \<Rightarrow> name list" where
  "set_add xs x = (if x \<in> set xs then xs else xs @ [x])"

text \<open>
  One parsed \<^verbatim>\<open>.asmdef\<close> file: its \<^verbatim>\<open>name\<close>, \<^verbatim>\<open>references\<close> and
  \<^verbatim>\<open>assemblyReferences\<close> entries, with the defaults of \<^verbatim>\<open>data.get\<close> already applied.
  The file path is carried by the source but never read by the analysis.
\<close>

record asmdef =
  asm_name :: name
  references :: "name list"
  assembly_references :: "name list"

section \<open>Tools/dependency\_analyzer.py\<close>

text \<open>
  \<^verbatim>\<open>load_assemblies\<close> stores, for every file that parses,
  \<^verbatim>\<open>self.dependency_graph[assembly_name] = references\<close>.
\<close>

definition load_assemblies :: "asmdef list \<Rightarrow> name list dict" where
  "load_assemblies files = fold (\<lambda>data g. dict_set g (asm_name data) (references data)) files []"

text \<open>
  \<^verbatim>\<open>find_cycles\<close> keeps \<^verbatim>\<open>cycles\<close>, \<^verbatim>\<open>visited\<close>, \<^verbatim>\<open>rec_stack\<close> and \<^verbatim>\<open>path\<close> as
  variables shared by all calls of the inner \<^verbatim>\<open>dfs\<close>:
  \<^verbatim>\<open>
  def dfs(node):
      if node in rec_stack:
          cycle_start = path.index(node)
          cycle = path[cycle_start:] + [node]
          cycles.append(cycle)
          return True
      if node in visited:
          return False
      visited.add(node); rec_stack.add(node); path.append(node)
      for neighbor in self.dependency_graph.get(node, []):
          if neighbor in self.dependency_graph:
              if dfs(neighbor):
                  return True
      rec_stack.remove(node)
      path.pop()
      return False
  \<close>
  \<open>dfs\<close> returns the Boolean and the new state; \<open>dfs_neighbors\<close> is the \<^verbatim>\<open>for\<close> loop,
  returning \<open>True\<close> when the loop is left by \<^verbatim>\<open>return True\<close>. On that path the source
  does not reach \<^verbatim>\<open>rec_stack.remove\<close> and \<^verbatim>\<open>path.pop\<close>, and neither does the model.
\<close>

record dfs_state =
  visited :: "name set"
  rec_stack :: "name set"
  path :: "name list"
  cycles :: "name list list"

function dfs :: "name list dict \<Rightarrow> name \<Rightarrow> dfs_state \<Rightarrow> error + (bool \<times> dfs_state)"
  and dfs_neighbors :: "name list dict \<Rightarrow> name list \<Rightarrow> dfs_state \<Rightarrow> error + (bool \<times> dfs_state)"
where
  "dfs g node s =
     (if node \<in> rec_stack s then
        (case list_index (path s) node of
           None \<Rightarrow> Inl ValueError
         | Some cycle_start \<Rightarrow>
             Inr (True, s\<lparr>cycles := cycles s @ [drop cycle_start (path s) @ [node]]\<rparr>))
      else if node \<in> visited s then Inr (False, s)
      else
        (case dfs_neighbors g (dict_get g node [])
                (s\<lparr>visited := insert node (visited s),
                   rec_stack := insert node (rec_stack s),
                   path := path s @ [node]\<rparr>) of
           Inl e \<Rightarrow> Inl e
         | Inr (True, s') \<Rightarrow> Inr (True, s')
         | Inr (False, s') \<Rightarrow>
             (if node \<notin> rec_stack s' then Inl KeyError
              else if path s' = [] then Inl IndexError
              else Inr (False, s'\<lparr>rec_stack := rec_stack s' - {node},
                                  path := butlast (path s')\<rparr>))))"
| "dfs_neighbors g [] s = Inr (False, s)"
| "dfs_neighbors g (neighbor # rest) s =
     (if neighbor \<in> set (dict_keys g) then
        (case dfs g neighbor s of
           Inl e \<Rightarrow> Inl e
         | Inr (True, s') \<Rightarrow> Inr (True, s')
         | Inr (False, s') \<Rightarrow> dfs_neighbors g rest s')
      else dfs_neighbors g rest s)"
  by pat_completeness auto

text \<open>
  The search ends: every call that goes on marks a module that was not yet visited, and
  only the names that occur in the graph can be reached.
\<close>

definition names_of :: "name list dict \<Rightarrow> name set" where
  "names_of g = set (dict_keys g) \<union> \<Union> (set (map (set \<circ> snd) g))"

lemma finite_names_of [simp]: "finite (names_of g)"
  by (simp add: names_of_def)

lemma dict_get_names_of: "set (dict_get g node []) \<subseteq> names_of g"
proof (cases "map_of g node")
  case None
  then show ?thesis by (simp add: dict_get_def)
next
  case (Some refs)
  then have "(node, refs) \<in> set g" by (rule map_of_SomeD)
  then have "set refs \<subseteq> \<Union> (set (map (set \<circ> snd) g))" by force
  with Some show ?thesis by (auto simp: dict_get_def names_of_def)
qed

lemma dfs_visited_mono_dom:
  "dfs_dfs_neighbors_dom (Inl (g, node, s)) \<Longrightarrow> dfs g node s = Inr (b, s')
     \<Longrightarrow> visited s \<subseteq> visited s'"
  "dfs_dfs_neighbors_dom (Inr (g, ns, s)) \<Longrightarrow> dfs_neighbors g ns s = Inr (b, s')
     \<Longrightarrow> visited s \<subseteq> visited s'"
proof (induction g node s and g ns s arbitrary: b s' and b s' rule: dfs_dfs_neighbors.pinduct)
  case (1 g node s)
  then show ?case
    by (fastforce simp: dfs.psimps split: if_splits option.splits sum.splits bool.splits prod.splits)
next
  case (2 g s)
  then show ?case by (simp add: dfs_neighbors.psimps)
next
  case (3 g neighbor rest s)
  then show ?case
    by (fastforce simp: dfs_neighbors.psimps split: if_splits option.splits sum.splits bool.splits prod.splits)
qed

termination dfs
proof (relation "inv_image (less_than <*lex*> less_than)
    (\<lambda>x. case x of
        Inl (g, node, s) \<Rightarrow> (card (insert node (names_of g) - visited s), 0)
      | Inr (g, ns, s) \<Rightarrow> (card ((names_of g \<union> set ns) - visited s), Suc (length ns)))", goal_cases)
  case 1
  show ?case by (intro wf_inv_image wf_lex_prod wf_less_than)
next
  case (2 g node s)
  have "(names_of g \<union> set (dict_get g node [])) - insert node (visited s)
          \<subset> insert node (names_of g) - visited s"
    using 2 dict_get_names_of[of g node] by auto
  then have "card ((names_of g \<union> set (dict_get g node [])) - insert node (visited s))
          < card (insert node (names_of g) - visited s)"
    by (intro psubset_card_mono) auto
  then show ?case by simp
next
  case (3 g neighbor rest s)
  have "card (insert neighbor (names_of g) - visited s)
          \<le> card ((names_of g \<union> set (neighbor # rest)) - visited s)"
    by (intro card_mono) auto
  then show ?case by auto
next
  case (4 g neighbor rest s b x y)
  then have "visited s \<subseteq> visited y"
    using dfs_visited_mono_dom(1) by blast
  then have "card ((names_of g \<union> set rest) - visited y)
          \<le> card ((names_of g \<union> set (neighbor # rest)) - visited s)"
    by (intro card_mono) auto
  then show ?case by auto
next
  case (5 g neighbor rest s)
  have "card ((names_of g \<union> set rest) - visited s)
          \<le> card ((names_of g \<union> set (neighbor # rest)) - visited s)"
    by (intro card_mono) auto
  then show ?case by auto
qed

text \<open>
  The outer loop of \<^verbatim>\<open>find_cycles\<close> ignores the Boolean:
  \<^verbatim>\<open>
  for assembly in self.dependency_graph:
      if assembly not in visited:
          dfs(assembly)
  return cycles
  \<close>
\<close>

fun find_cycles_loop :: "name list dict \<Rightarrow> name list \<Rightarrow> dfs_state \<Rightarrow> error + dfs_state" where
  "find_cycles_loop g [] s = Inr s"
| "find_cycles_loop g (assembly # rest) s =
     (if assembly \<notin> visited s then
        (case dfs g assembly s of
           Inl e \<Rightarrow> Inl e
         | Inr (found, s') \<Rightarrow> find_cycles_loop g rest s')
      else find_cycles_loop g rest s)"

definition find_cycles :: "name list dict \<Rightarrow> error + name list list" where
  "find_cycles g =
     (case find_cycles_loop g (dict_keys g)
             \<lparr>visited = {}, rec_stack = {}, path = [], cycles = []\<rparr> of
        Inl e \<Rightarrow> Inl e
      | Inr s \<Rightarrow> Inr (cycles s))"

section \<open>Tarjan's algorithm, as both sources write it\<close>

text \<open>
  Both Tarjan implementations (\<^verbatim>\<open>analyze_circular_deps.py\<close> and
  \<^verbatim>\<open>assembly_dependency_analyzer.py\<close>) keep \<^verbatim>\<open>index_counter\<close>, \<^verbatim>\<open>stack\<close>,
  \<^verbatim>\<open>lowlinks\<close>, \<^verbatim>\<open>index\<close>, \<^verbatim>\<open>on_stack\<close> and the result list as variables shared by
  all calls of \<^verbatim>\<open>strongconnect\<close>. The three dictionaries are only read and written by
  key, so they are maps. The head of \<open>stack\<close> is the top of the Python list (its last
  element): \<^verbatim>\<open>stack.append\<close> is a cons and \<^verbatim>\<open>stack.pop()\<close> takes the head.
\<close>

record tarjan_state =
  index_counter :: nat
  stack :: "name list"
  lowlinks :: "name \<rightharpoonup> nat"
  index :: "name \<rightharpoonup> nat"
  on_stack :: "name \<rightharpoonup> bool"
  components :: "name list list"

text \<open>
  The first five statements of \<^verbatim>\<open>strongconnect(node)\<close>:
  \<^verbatim>\<open>
  index[node] = index_counter[0]
  lowlinks[node] = index_counter[0]
  index_counter[0] += 1
  stack.append(node)
  on_stack[node] = True
  \<close>
\<close>

definition enter :: "name \<Rightarrow> tarjan_state \<Rightarrow> tarjan_state" where
  "enter node s =
     s\<lparr>index := (index s)(node \<mapsto> index_counter s),
       lowlinks := (lowlinks s)(node \<mapsto> index_counter s),
       index_counter := index_counter s + 1,
       stack := node # stack s,
       on_stack := (on_stack s)(node \<mapsto> True)\<rparr>"

text \<open>
  \<^verbatim>\<open>lowlinks[node] = min(lowlinks[node], lowlinks[successor])\<close> after the recursive call,
  and \<^verbatim>\<open>lowlinks[node] = min(lowlinks[node], index[successor])\<close> for a successor on the
  stack. A missing key raises KeyError.
\<close>

definition lowlink_from_child :: "name \<Rightarrow> name \<Rightarrow> tarjan_state \<Rightarrow> error + tarjan_state" where
  "lowlink_from_child node successor s =
     (case (lowlinks s node, lowlinks s successor) of
        (Some a, Some b) \<Rightarrow> Inr (s\<lparr>lowlinks := (lowlinks s)(node \<mapsto> min a b)\<rparr>)
      | _ \<Rightarrow> Inl KeyError)"

definition lowlink_from_stack :: "name \<Rightarrow> name \<Rightarrow> tarjan_state \<Rightarrow> error + tarjan_state" where
  "lowlink_from_stack node successor s =
     (case (lowlinks s node, index s successor) of
        (Some a, Some b) \<Rightarrow> Inr (s\<lparr>lowlinks := (lowlinks s)(node \<mapsto> min a b)\<rparr>)
      | _ \<Rightarrow> Inl KeyError)"

text \<open>
  The end of \<^verbatim>\<open>strongconnect(node)\<close>:
  \<^verbatim>\<open>
  if lowlinks[node] == index[node]:
      component = []
      while True:
          w = stack.pop()
          on_stack[w] = False
          component.append(w)
          if w == node:
              break
      if len(component) > 1:
          components.append(component)
  \<close>
  \<^verbatim>\<open>stack.pop()\<close> on the empty list raises IndexError.
\<close>

fun pop_component ::
  "name \<Rightarrow> name list \<Rightarrow> (name \<rightharpoonup> bool) \<Rightarrow> name list
     \<Rightarrow> error + (name list \<times> (name \<rightharpoonup> bool) \<times> name list)" where
  "pop_component node [] ons component = Inl IndexError"
| "pop_component node (w # stk) ons component =
     (if w = node then Inr (stk, ons(w \<mapsto> False), component @ [w])
      else pop_component node stk (ons(w \<mapsto> False)) (component @ [w]))"

definition emit_component :: "name \<Rightarrow> tarjan_state \<Rightarrow> error + tarjan_state" where
  "emit_component node s =
     (case (lowlinks s node, index s node) of
        (Some l, Some i) \<Rightarrow>
          (if l = i then
             (case pop_component node (stack s) (on_stack s) [] of
                Inl e \<Rightarrow> Inl e
              | Inr (stk, ons, component) \<Rightarrow>
                  Inr (s\<lparr>stack := stk, on_stack := ons,
                         components := (if length component > 1
                                        then components s @ [component]
                                        else components s)\<rparr>))
           else Inr s)
      | _ \<Rightarrow> Inl KeyError)"

text \<open>
  \<^verbatim>\<open>strongconnect\<close> and its loop over the successors. The two sources differ in one
  test only: \<^verbatim>\<open>assembly_dependency_analyzer.py\<close> skips a neighbour that is not in
  \<^verbatim>\<open>self.assemblies\<close>, \<^verbatim>\<open>analyze_circular_deps.py\<close> has no such test. The test is the
  parameter \<open>known\<close>, constantly true for the latter.
  \<^verbatim>\<open>
  for neighbor in self.dependency_graph.get(node, set()):
      if neighbor not in self.assemblies:
          continue
      if neighbor not in index:
          strongconnect(neighbor)
          lowlinks[node] = min(lowlinks[node], lowlinks[neighbor])
      elif on_stack.get(neighbor, False):
          lowlinks[node] = min(lowlinks[node], index[neighbor])
  \<close>
\<close>

function strongconnect ::
    "(name \<Rightarrow> bool) \<Rightarrow> name list dict \<Rightarrow> name \<Rightarrow> tarjan_state \<Rightarrow> error + tarjan_state"
  and strongconnect_successors ::
    "(name \<Rightarrow> bool) \<Rightarrow> name list dict \<Rightarrow> name \<Rightarrow> name list \<Rightarrow> tarjan_state \<Rightarrow> error + tarjan_state"
where
  "strongconnect known g node s =
     (case strongconnect_successors known g node (dict_get g node []) (enter node s) of
        Inl e \<Rightarrow> Inl e
      | Inr s' \<Rightarrow> emit_component node s')"
| "strongconnect_successors known g node [] s = Inr s"
| "strongconnect_successors known g node (successor # rest) s =
     (if \<not> known successor then strongconnect_successors known g node rest s
      else if index s successor = None then
        (case strongconnect known g successor s of
           Inl e \<Rightarrow> Inl e
         | Inr s' \<Rightarrow>
             (case lowlink_from_child node successor s' of
                Inl e \<Rightarrow> Inl e
              | Inr s'' \<Rightarrow> strongconnect_successors known g node rest s''))
      else if (case on_stack s successor of None \<Rightarrow> False | Some b \<Rightarrow> b) then
        (case lowlink_from_stack node successor s of
           Inl e \<Rightarrow> Inl e
         | Inr s' \<Rightarrow> strongconnect_successors known g node rest s')
      else strongconnect_successors known g node rest s)"
  by pat_completeness auto

lemma index_enter [simp]: "index (enter node s) = (index s)(node \<mapsto> index_counter s)"
  by (simp add: enter_def)

lemma index_lowlink_from_child: "lowlink_from_child node successor s = Inr s' \<Longrightarrow> index s' = index s"
  by (auto simp: lowlink_from_child_def split: option.splits)

lemma index_lowlink_from_stack: "lowlink_from_stack node successor s = Inr s' \<Longrightarrow> index s' = index s"
  by (auto simp: lowlink_from_stack_def split: option.splits)

lemma index_emit_component: "emit_component node s = Inr s' \<Longrightarrow> index s' = index s"
  by (auto simp: emit_component_def split: option.splits sum.splits if_splits)

lemma strongconnect_index_mono_dom:
  "strongconnect_strongconnect_successors_dom (Inl (known, g, node, s)) \<Longrightarrow>
     strongconnect known g node s = Inr s' \<Longrightarrow> dom (index s) \<subseteq> dom (index s')"
  "strongconnect_strongconnect_successors_dom (Inr (known, g, node, succs, s)) \<Longrightarrow>
     strongconnect_successors known g node succs s = Inr s' \<Longrightarrow> dom (index s) \<subseteq> dom (index s')"
proof (induction known g node s and known g node succs s arbitrary: s' and s'
    rule: strongconnect_strongconnect_successors.pinduct)
  case (1 known g node s)
  from 1(3) obtain s1 where
    s1: "strongconnect_successors known g node (dict_get g node []) (enter node s) = Inr s1"
    and s': "emit_component node s1 = Inr s'"
    by (auto simp: strongconnect.psimps[OF 1(1)] split: sum.splits)
  from 1(2)[OF s1] have "dom (index (enter node s)) \<subseteq> dom (index s1)" .
  moreover have "dom (index s) \<subseteq> dom (index (enter node s))" by auto
  ultimately show ?case using index_emit_component[OF s'] by simp
next
  case (2 known g node s)
  then show ?case by (simp add: strongconnect_successors.psimps)
next
  case (3 known g node successor rest s)
  note eq = "3.prems"[unfolded strongconnect_successors.psimps(2)[OF 3(1)]]
  note IH = "3.IH"
  show ?case
  proof (cases "known successor")
    case False
    with eq IH(1) show ?thesis by simp
  next
    case known: True
    show ?thesis
    proof (cases "index s successor = None")
      case unseen: True
      with eq known obtain s1 s2 where
        s1: "strongconnect known g successor s = Inr s1"
        and s2: "lowlink_from_child node successor s1 = Inr s2"
        and r: "strongconnect_successors known g node rest s2 = Inr s'"
        by (auto split: sum.splits)
      from IH(2)[OF _ unseen s1] known have "dom (index s) \<subseteq> dom (index s1)" by simp
      moreover from IH(3)[OF _ unseen s1 s2 r] known have "dom (index s2) \<subseteq> dom (index s')"
        by simp
      ultimately show ?thesis using index_lowlink_from_child[OF s2] by auto
    next
      case seen: False
      show ?thesis
      proof (cases "case on_stack s successor of None \<Rightarrow> False | Some b \<Rightarrow> b")
        case ons: True
        with eq known seen obtain s1 where
          s1: "lowlink_from_stack node successor s = Inr s1"
          and r: "strongconnect_successors known g node rest s1 = Inr s'"
          by (auto split: sum.splits)
        from IH(4)[OF _ seen ons s1 r] known have "dom (index s1) \<subseteq> dom (index s')" by simp
        then show ?thesis using index_lowlink_from_stack[OF s1] by auto
      next
        case False
        with eq known seen have "strongconnect_successors known g node rest s = Inr s'" by simp
        from IH(5)[OF _ seen False this] known show ?thesis by simp
      qed
    qed
  qed
qed

termination strongconnect
proof (relation "inv_image (less_than <*lex*> less_than <*lex*> less_than)
    (\<lambda>x. case x of
        Inl (known, g, node, s) \<Rightarrow> (card (names_of g - insert node (dom (index s))), 1, 0)
      | Inr (known, g, node, succs, s) \<Rightarrow>
          (card ((names_of g \<union> set succs) - dom (index s)), 0, length succs))", goal_cases)
  case 1
  show ?case by (intro wf_inv_image wf_lex_prod wf_less_than)
next
  case (2 known g node s)
  have "(names_of g \<union> set (dict_get g node [])) - dom (index (enter node s))
          = names_of g - insert node (dom (index s))"
    using dict_get_names_of[of g node] by auto
  then show ?case by simp
next
  case (3 known g node successor rest s)
  have "card ((names_of g \<union> set rest) - dom (index s))
          \<le> card ((names_of g \<union> set (successor # rest)) - dom (index s))"
    by (intro card_mono) auto
  then show ?case by auto
next
  case (4 known g node successor rest s)
  then have "successor \<notin> dom (index s)" by auto
  then have "names_of g - insert successor (dom (index s))
          \<subset> (names_of g \<union> set (successor # rest)) - dom (index s)"
    by auto
  then have "card (names_of g - insert successor (dom (index s)))
          < card ((names_of g \<union> set (successor # rest)) - dom (index s))"
    by (intro psubset_card_mono) auto
  then show ?case by simp
next
  case (5 known g node successor rest s s1 s2)
  then have "dom (index s) \<subseteq> dom (index s2)"
    using strongconnect_index_mono_dom(1) index_lowlink_from_child by metis
  then have "card ((names_of g \<union> set rest) - dom (index s2))
          \<le> card ((names_of g \<union> set (successor # rest)) - dom (index s))"
    by (intro card_mono) auto
  then show ?case by auto
next
  case (6 known g node successor rest s s1)
  then have "index s1 = index s"
    using index_lowlink_from_stack by blast
  moreover have "card ((names_of g \<union> set rest) - dom (index s))
          \<le> card ((names_of g \<union> set (successor # rest)) - dom (index s))"
    by (intro card_mono) auto
  ultimately show ?case by auto
next
  case (7 known g node successor rest s)
  have "card ((names_of g \<union> set rest) - dom (index s))
          \<le> card ((names_of g \<union> set (successor # rest)) - dom (index s))"
    by (intro card_mono) auto
  then show ?case by auto
qed


text \<open>
  The loop over the roots: \<^verbatim>\<open>for node in ...: if node not in index: strongconnect(node)\<close>.
\<close>

fun strongconnect_roots ::
  "(name \<Rightarrow> bool) \<Rightarrow> name list dict \<Rightarrow> name list \<Rightarrow> tarjan_state \<Rightarrow> error + tarjan_state" where
  "strongconnect_roots known g [] s = Inr s"
| "strongconnect_roots known g (node # rest) s =
     (if index s node = None then
        (case strongconnect known g node s of
           Inl e \<Rightarrow> Inl e
         | Inr s' \<Rightarrow> strongconnect_roots known g rest s')
      else strongconnect_roots known g rest s)"

definition tarjan_init :: tarjan_state where
  "tarjan_init = \<lparr>index_counter = 0, stack = [], lowlinks = Map.empty, index = Map.empty,
                   on_stack = Map.empty, components = []\<rparr>"

definition tarjan :: "(name \<Rightarrow> bool) \<Rightarrow> name list dict \<Rightarrow> name list \<Rightarrow> error + name list list" where
  "tarjan known g roots =
     (case strongconnect_roots known g roots tarjan_init of
        Inl e \<Rightarrow> Inl e
      | Inr s \<Rightarrow> Inr (components s))"

section \<open>analyze\_circular\_deps.py\<close>

text \<open>
  \<^verbatim>\<open>build_dependency_graph\<close> gets one parse result per file, \<open>None\<close> for a file that
  \<^verbatim>\<open>parse_asmdef\<close> could not read. The first pass is
  \<^verbatim>\<open>assemblies[asmdef['name']] = asmdef\<close> for every parsed file; the second pass appends
  to \<^verbatim>\<open>graph[name]\<close>, a \<^verbatim>\<open>defaultdict(list)\<close>, every reference that is a key of
  \<^verbatim>\<open>assemblies\<close>.
\<close>

definition defaultdict_append :: "name list dict \<Rightarrow> name \<Rightarrow> name \<Rightarrow> name list dict" where
  "defaultdict_append d k x = dict_set d k (dict_get d k [] @ [x])"

definition acd_collect :: "asmdef option list \<Rightarrow> asmdef dict" where
  "acd_collect parsed =
     fold (\<lambda>r assemblies. case r of None \<Rightarrow> assemblies
                             | Some asmdef \<Rightarrow> dict_set assemblies (asm_name asmdef) asmdef)
          parsed []"

definition acd_build_dependency_graph :: "asmdef option list \<Rightarrow> asmdef dict \<times> name list dict" where
  "acd_build_dependency_graph parsed =
     (let assemblies = acd_collect parsed;
          graph = fold (\<lambda>(nm, asmdef) graph.
                          fold (\<lambda>ref graph. if ref \<in> set (dict_keys assemblies)
                                             then defaultdict_append graph nm ref else graph)
                               (references asmdef) graph)
                       assemblies []
      in (assemblies, graph))"

text \<open>\<^verbatim>\<open>find_strongly_connected_components(graph)\<close> of this file: the roots are the keys of \<open>graph\<close>.\<close>

definition acd_find_strongly_connected_components :: "name list dict \<Rightarrow> error + name list list" where
  "acd_find_strongly_connected_components graph = tarjan (\<lambda>_. True) graph (dict_keys graph)"

section \<open>assembly\_dependency\_analyzer.py\<close>

record analyzer =
  assemblies :: "asmdef dict"
  dependency_graph :: "name list dict"
  reverse_dependency_graph :: "name list dict"

definition analyzer_init :: analyzer where
  "analyzer_init = \<lparr>assemblies = [], dependency_graph = [], reverse_dependency_graph = []\<rparr>"

text \<open>
  The loop of \<^verbatim>\<open>load_assembly_definitions\<close> over the files that parse: it stores
  \<^verbatim>\<open>self.assemblies[assembly_name]\<close> and prints \<^verbatim>\<open>Loaded: {assembly_name}\<close>. The second
  component is the list of printed lines.
\<close>

definition load_assembly_definitions :: "asmdef list \<Rightarrow> analyzer \<Rightarrow> analyzer \<times> string list" where
  "load_assembly_definitions files a =
     fold (\<lambda>data (a, out).
             (a\<lparr>assemblies := dict_set (assemblies a) (asm_name data) data\<rparr>,
              out @ [''Loaded: '' @ asm_name data]))
          files (a, [])"

text \<open>
  \<^verbatim>\<open>build_dependency_graph\<close> of the class: both graphs are \<^verbatim>\<open>defaultdict(set)\<close>, so
  \<^verbatim>\<open>d[k].add(x)\<close> creates the key when it is missing.
\<close>

definition defaultdict_add :: "name list dict \<Rightarrow> name \<Rightarrow> name \<Rightarrow> name list dict" where
  "defaultdict_add d k x = dict_set d k (set_add (dict_get d k []) x)"

definition add_dependency :: "name \<Rightarrow> name \<Rightarrow> analyzer \<Rightarrow> analyzer" where
  "add_dependency assembly_name ref a =
     a\<lparr>dependency_graph := defaultdict_add (dependency_graph a) assembly_name ref,
       reverse_dependency_graph := defaultdict_add (reverse_dependency_graph a) ref assembly_name\<rparr>"

definition build_dependency_graph :: "analyzer \<Rightarrow> analyzer" where
  "build_dependency_graph a =
     fold (\<lambda>(assembly_name, assembly_info) a.
             fold (\<lambda>ref a. if startswith ref ''GUID:'' then a
                            else add_dependency assembly_name ref a)
                  (assembly_references assembly_info)
                  (fold (add_dependency assembly_name) (references assembly_info) a))
          (assemblies a) a"

text \<open>
  \<^verbatim>\<open>detect_circular_dependencies\<close>: here \<^verbatim>\<open>path\<close> is an argument of the inner \<^verbatim>\<open>dfs\<close>,
  copied for every call, and nothing is returned:
  \<^verbatim>\<open>
  def dfs(node, path):
      if node in rec_stack:
          cycle_start = path.index(node)
          cycle = path[cycle_start:] + [node]
          cycles.append(cycle)
          return
      if node in visited:
          return
      visited.add(node); rec_stack.add(node); path.append(node)
      for neighbor in self.dependency_graph.get(node, set()):
          if neighbor in self.assemblies:
              dfs(neighbor, path.copy())
      rec_stack.remove(node)
  \<close>
  The argument \<^verbatim>\<open>path\<close> is \<open>pth\<close> below.
\<close>

record detect_state =
  visited_d :: "name set"
  rec_stack_d :: "name set"
  cycles_d :: "name list list"

function detect_dfs :: "analyzer \<Rightarrow> name \<Rightarrow> name list \<Rightarrow> detect_state \<Rightarrow> error + detect_state"
  and detect_dfs_neighbors ::
    "analyzer \<Rightarrow> name list \<Rightarrow> name list \<Rightarrow> detect_state \<Rightarrow> error + detect_state"
where
  "detect_dfs a node pth s =
     (if node \<in> rec_stack_d s then
        (case list_index pth node of
           None \<Rightarrow> Inl ValueError
         | Some cycle_start \<Rightarrow>
             Inr (s\<lparr>cycles_d := cycles_d s @ [drop cycle_start pth @ [node]]\<rparr>))
      else if node \<in> visited_d s then Inr s
      else
        (case detect_dfs_neighbors a (dict_get (dependency_graph a) node []) (pth @ [node])
                (s\<lparr>visited_d := insert node (visited_d s),
                   rec_stack_d := insert node (rec_stack_d s)\<rparr>) of
           Inl e \<Rightarrow> Inl e
         | Inr s' \<Rightarrow>
             (if node \<notin> rec_stack_d s' then Inl KeyError
              else Inr (s'\<lparr>rec_stack_d := rec_stack_d s' - {node}\<rparr>))))"
| "detect_dfs_neighbors a [] pth s = Inr s"
| "detect_dfs_neighbors a (neighbor # rest) pth s =
     (if neighbor \<in> set (dict_keys (assemblies a)) then
        (case detect_dfs a neighbor pth s of
           Inl e \<Rightarrow> Inl e
         | Inr s' \<Rightarrow> detect_dfs_neighbors a rest pth s')
      else detect_dfs_neighbors a rest pth s)"
  by pat_completeness auto

lemma detect_dfs_visited_mono_dom:
  "detect_dfs_detect_dfs_neighbors_dom (Inl (a, node, pth, s)) \<Longrightarrow>
     detect_dfs a node pth s = Inr s' \<Longrightarrow> visited_d s \<subseteq> visited_d s'"
  "detect_dfs_detect_dfs_neighbors_dom (Inr (a, ns, pth, s)) \<Longrightarrow>
     detect_dfs_neighbors a ns pth s = Inr s' \<Longrightarrow> visited_d s \<subseteq> visited_d s'"
proof (induction a node pth s and a ns pth s arbitrary: s' and s'
    rule: detect_dfs_detect_dfs_neighbors.pinduct)
  case (1 a node pth s)
  then show ?case
    by (fastforce simp: detect_dfs.psimps split: if_splits option.splits sum.splits)
next
  case (2 a pth s)
  then show ?case by (simp add: detect_dfs_neighbors.psimps)
next
  case (3 a neighbor rest pth s)
  then show ?case
    by (fastforce simp: detect_dfs_neighbors.psimps split: if_splits sum.splits)
qed

termination detect_dfs
proof (relation "inv_image (less_than <*lex*> less_than)
    (\<lambda>x. case x of
        Inl (a, node, pth, s) \<Rightarrow>
          (card (insert node (names_of (dependency_graph a)) - visited_d s), 0)
      | Inr (a, ns, pth, s) \<Rightarrow>
          (card ((names_of (dependency_graph a) \<union> set ns) - visited_d s), Suc (length ns)))",
    goal_cases)
  case 1
  show ?case by (intro wf_inv_image wf_lex_prod wf_less_than)
next
  case (2 a node pth s)
  let ?N = "names_of (dependency_graph a)"
  have "(?N \<union> set (dict_get (dependency_graph a) node [])) - insert node (visited_d s)
          \<subset> insert node ?N - visited_d s"
    using 2 dict_get_names_of[of "dependency_graph a" node] by auto
  then have "card ((?N \<union> set (dict_get (dependency_graph a) node [])) - insert node (visited_d s))
          < card (insert node ?N - visited_d s)"
    by (intro psubset_card_mono) auto
  then show ?case by simp
next
  case (3 a neighbor rest pth s)
  have "card (insert neighbor (names_of (dependency_graph a)) - visited_d s)
          \<le> card ((names_of (dependency_graph a) \<union> set (neighbor # rest)) - visited_d s)"
    by (intro card_mono) auto
  then show ?case by auto
next
  case (4 a neighbor rest pth s s')
  then have "visited_d s \<subseteq> visited_d s'"
    using detect_dfs_visited_mono_dom(1) by blast
  then have "card ((names_of (dependency_graph a) \<union> set rest) - visited_d s')
          \<le> card ((names_of (dependency_graph a) \<union> set (neighbor # rest)) - visited_d s)"
    by (intro card_mono) auto
  then show ?case by auto
next
  case (5 a neighbor rest pth s)
  have "card ((names_of (dependency_graph a) \<union> set rest) - visited_d s)
          \<le> card ((names_of (dependency_graph a) \<union> set (neighbor # rest)) - visited_d s)"
    by (intro card_mono) auto
  then show ?case by auto
qed

text \<open>
  \<^verbatim>\<open>for assembly in self.assemblies.keys(): if assembly not in visited: dfs(assembly, [])\<close>
\<close>

fun detect_loop :: "analyzer \<Rightarrow> name list \<Rightarrow> detect_state \<Rightarrow> error + detect_state" where
  "detect_loop a [] s = Inr s"
| "detect_loop a (assembly # rest) s =
     (if assembly \<notin> visited_d s then
        (case detect_dfs a assembly [] s of
           Inl e \<Rightarrow> Inl e
         | Inr s' \<Rightarrow> detect_loop a rest s')
      else detect_loop a rest s)"

definition detect_circular_dependencies :: "analyzer \<Rightarrow> error + name list list" where
  "detect_circular_dependencies a =
     (case detect_loop a (dict_keys (assemblies a))
             \<lparr>visited_d = {}, rec_stack_d = {}, cycles_d = []\<rparr> of
        Inl e \<Rightarrow> Inl e
      | Inr s \<Rightarrow> Inr (cycles_d s))"

text \<open>
  \<^verbatim>\<open>find_strongly_connected_components\<close> of the class: the roots are
  \<^verbatim>\<open>self.assemblies.keys()\<close> and a neighbour outside \<^verbatim>\<open>self.assemblies\<close> is skipped.
\<close>

definition find_strongly_connected_components :: "analyzer \<Rightarrow> error + name list list" where
  "find_strongly_connected_components a =
     tarjan (\<lambda>n. n \<in> set (dict_keys (assemblies a))) (dependency_graph a)
            (dict_keys (assemblies a))"

text \<open>
  \<^verbatim>\<open>analyze_dependency_violations\<close> starts from four empty lists and fills two of them:
  \<^verbatim>\<open>
  for assembly_name, assembly_info in self.assemblies.items():
      if '.Editor' in assembly_name:
          for dep in assembly_info['references']:
              if dep in self.assemblies and '.Editor' not in dep:
                  if assembly_name in self.dependency_graph.get(dep, set()):
                      violations['editor_runtime_cycles'].append(f"{assembly_name} <-> {dep}")
      if '.Testing' in assembly_name or '.Test' in assembly_name:
          for dep in assembly_info['references']:
              if dep in self.assemblies and '.Testing' not in dep and '.Test' not in dep:
                  if assembly_name in self.dependency_graph.get(dep, set()):
                      violations['test_production_cycles'].append(f"{assembly_name} <-> {dep}")
  \<close>
\<close>

record violations =
  editor_runtime_cycles :: "string list"
  test_production_cycles :: "string list"
  circular_core_dependencies :: "string list"
  missing_dependencies :: "string list"

definition is_editor :: "name \<Rightarrow> bool" where
  "is_editor n = str_contains ''.Editor'' n"

definition is_test :: "name \<Rightarrow> bool" where
  "is_test n = (str_contains ''.Testing'' n \<or> str_contains ''.Test'' n)"

definition editor_check :: "analyzer \<Rightarrow> name \<Rightarrow> asmdef \<Rightarrow> violations \<Rightarrow> violations" where
  "editor_check a assembly_name assembly_info v =
     (if is_editor assembly_name then
        fold (\<lambda>dep v.
                if dep \<in> set (dict_keys (assemblies a)) \<and> \<not> is_editor dep then
                  (if assembly_name \<in> set (dict_get (dependency_graph a) dep [])
                   then v\<lparr>editor_runtime_cycles :=
                            editor_runtime_cycles v @ [assembly_name @ '' <-> '' @ dep]\<rparr>
                   else v)
                else v)
             (references assembly_info) v
      else v)"

definition test_check :: "analyzer \<Rightarrow> name \<Rightarrow> asmdef \<Rightarrow> violations \<Rightarrow> violations" where
  "test_check a assembly_name assembly_info v =
     (if is_test assembly_name then
        fold (\<lambda>dep v.
                if dep \<in> set (dict_keys (assemblies a)) \<and> \<not> is_test dep then
                  (if assembly_name \<in> set (dict_get (dependency_graph a) dep [])
                   then v\<lparr>test_production_cycles :=
                            test_production_cycles v @ [assembly_name @ '' <-> '' @ dep]\<rparr>
                   else v)
                else v)
             (references assembly_info) v
      else v)"

definition analyze_dependency_violations :: "analyzer \<Rightarrow> violations" where
  "analyze_dependency_violations a =
     fold (\<lambda>(assembly_name, assembly_info) v.
             test_check a assembly_name assembly_info
               (editor_check a assembly_name assembly_info v))
          (assemblies a)
          \<lparr>editor_runtime_cycles = [], test_production_cycles = [],
           circular_core_dependencies = [], missing_dependencies = []\<rparr>"

text \<open>
  The part of \<^verbatim>\<open>run_analysis\<close> that computes: load, build, then the three passes in the
  order of the source.
\<close>

definition analyzer_of :: "asmdef list \<Rightarrow> analyzer" where
  "analyzer_of files = build_dependency_graph (fst (load_assembly_definitions files analyzer_init))"


section \<open>Notions the claims speak about\<close>

text \<open>
  A forward edge between known modules of a graph \<open>g\<close> of
  \<^verbatim>\<open>Tools/dependency_analyzer.py\<close>, and a well-formed cycle \<open>[m0, m1, ..., mk, m0]\<close>: at
  least two entries, the first equal to the last, every consecutive pair such an edge.
  \<open>module\<close> builds a declaration without \<^verbatim>\<open>assemblyReferences\<close>; the two inputs are
  the ones at which \<open>find_cycles\<close> is evaluated below.
\<close>

definition known_edge :: "name list dict \<Rightarrow> name \<Rightarrow> name \<Rightarrow> bool" where
  "known_edge g a b =
     (a \<in> set (dict_keys g) \<and> b \<in> set (dict_keys g) \<and> b \<in> set (dict_get g a []))"

definition well_formed_cycle :: "name list dict \<Rightarrow> name list \<Rightarrow> bool" where
  "well_formed_cycle g c = (2 \<le> length c \<and> hd c = last c \<and> successively (known_edge g) c)"

definition module :: "name \<Rightarrow> name list \<Rightarrow> asmdef" where
  "module n refs = \<lparr>asm_name = n, references = refs, assembly_references = []\<rparr>"

definition stale_stack_input :: "asmdef list" where
  "stale_stack_input = [module ''A'' [''B''], module ''B'' [''A''], module ''C'' [''A'']]"

definition abandoned_component_input :: "asmdef list" where
  "abandoned_component_input =
     [module ''C'' [''A'', ''D''], module ''A'' [''B''], module ''B'' [''A''], module ''D'' [''C'']]"

text \<open>
  The edge relations: \<open>known_edges\<close> for \<open>find_cycles\<close>, which only follows a reference that
  is a key of the graph, and \<open>tarjan_edges\<close> for \<open>strongconnect\<close>, which follows a
  successor that passes the test \<open>known\<close>. A graph is a directed acyclic graph when the
  relation is \<open>acyclic\<close>: no module reaches itself along one or more edges.
\<close>

definition known_edges :: "name list dict \<Rightarrow> (name \<times> name) set" where
  "known_edges g = {(a, b). known_edge g a b}"

definition tarjan_edges :: "(name \<Rightarrow> bool) \<Rightarrow> name list dict \<Rightarrow> (name \<times> name) set" where
  "tarjan_edges known g = {(a, b). b \<in> set (dict_get g a []) \<and> known b}"

definition chain_input :: "name list dict" where
  "chain_input = [(''A'', [''B'']), (''B'', [''C'']), (''C'', [])]"

text \<open>
  The declaration that \<open>d[name] = ...\<close> leaves in a dictionary after all files are read
  is the last one with that name. \<open>parsed_files\<close> drops the files that
  \<^verbatim>\<open>parse_asmdef\<close> could not read.
\<close>

definition last_declaration :: "name \<Rightarrow> asmdef list \<Rightarrow> asmdef option" where
  "last_declaration n ds =
     (case filter (\<lambda>d. asm_name d = n) ds of [] \<Rightarrow> None | x # xs \<Rightarrow> Some (last (x # xs)))"

definition parsed_files :: "asmdef option list \<Rightarrow> asmdef list" where
  "parsed_files parsed = concat (map (\<lambda>r. case r of None \<Rightarrow> [] | Some d \<Rightarrow> [d]) parsed)"

definition duplicate_input :: "asmdef list" where
  "duplicate_input = [module ''M'' [''A''], module ''A'' [], module ''M'' []]"

text \<open>The input of scenario 4: one module whose only dependency is not declared.\<close>

definition external_input :: "asmdef list" where
  "external_input = [module ''A'' [''External.Lib'']]"

text \<open>
  The entries of \<^verbatim>\<open>test_production_cycles\<close> as pairs: \<open>violation_text\<close> is the f-string
  \<^verbatim>\<open>f"{assembly_name} <-> {dep}"\<close>, and \<open>test_production_pairs\<close> lists, in the order of
  the two loops, every test module with each of its references that is a known module,
  is not a test module and depends back on it.
\<close>

definition violation_text :: "name \<times> name \<Rightarrow> string" where
  "violation_text p = fst p @ '' <-> '' @ snd p"

definition test_production_deps :: "analyzer \<Rightarrow> name \<Rightarrow> asmdef \<Rightarrow> name list" where
  "test_production_deps a n info =
     (if is_test n then
        filter (\<lambda>dep. dep \<in> set (dict_keys (assemblies a)) \<and> \<not> is_test dep \<and>
                      n \<in> set (dict_get (dependency_graph a) dep []))
               (references info)
      else [])"

definition test_production_pairs :: "analyzer \<Rightarrow> (name \<times> asmdef) list \<Rightarrow> (name \<times> name) list" where
  "test_production_pairs a xs =
     concat (map (\<lambda>(n, info). map (Pair n) (test_production_deps a n info)) xs)"

definition test_cycle_input :: "asmdef list" where
  "test_cycle_input = [module ''X.Test'' [''Prod.Y''], module ''Prod.Y'' [''X.Test'']]"

text \<open>
  The same two modules with \<^verbatim>\<open>Prod.Y\<close> written twice in \<^verbatim>\<open>references\<close>, and with
  \<^verbatim>\<open>Prod.Y\<close> written in \<^verbatim>\<open>assemblyReferences\<close> only.
\<close>

definition duplicate_reference_input :: "asmdef list" where
  "duplicate_reference_input =
     [module ''X.Test'' [''Prod.Y'', ''Prod.Y''], module ''Prod.Y'' [''X.Test'']]"

definition assembly_reference_input :: "asmdef list" where
  "assembly_reference_input =
     [\<lparr>asm_name = ''X.Test'', references = [], assembly_references = [''Prod.Y'']\<rparr>,
      module ''Prod.Y'' [''X.Test'']]"

text \<open>
  The edge relation that \<^verbatim>\<open>find_strongly_connected_components\<close> of the class follows: a
  successor is looked at when it is a key of \<^verbatim>\<open>self.assemblies\<close>.
\<close>

definition analyzer_known :: "analyzer \<Rightarrow> name \<Rightarrow> bool" where
  "analyzer_known a n \<longleftrightarrow> n \<in> set (dict_keys (assemblies a))"

definition analyzer_edges :: "analyzer \<Rightarrow> (name \<times> name) set" where
  "analyzer_edges a = tarjan_edges (analyzer_known a) (dependency_graph a)"

text \<open>
  Two inputs: a module that lists itself, and a module that lists itself and a second
  module that lists it back.
\<close>

definition self_loop_input :: "asmdef list" where
  "self_loop_input = [module ''X'' [''X'']]"

definition self_loop_pair_input :: "asmdef list" where
  "self_loop_pair_input = [module ''X'' [''X'', ''Y''], module ''Y'' [''X'']]"

text \<open>
  The entries of \<^verbatim>\<open>editor_runtime_cycles\<close> as pairs, as \<open>test_production_pairs\<close> above.
\<close>

definition editor_runtime_deps :: "analyzer \<Rightarrow> name \<Rightarrow> asmdef \<Rightarrow> name list" where
  "editor_runtime_deps a n info =
     (if is_editor n then
        filter (\<lambda>dep. dep \<in> set (dict_keys (assemblies a)) \<and> \<not> is_editor dep \<and>
                      n \<in> set (dict_get (dependency_graph a) dep []))
               (references info)
      else [])"

definition editor_runtime_pairs :: "analyzer \<Rightarrow> (name \<times> asmdef) list \<Rightarrow> (name \<times> name) list" where
  "editor_runtime_pairs a xs =
     concat (map (\<lambda>(n, info). map (Pair n) (editor_runtime_deps a n info)) xs)"

text \<open>
  Two states of the class after \<^verbatim>\<open>build_dependency_graph\<close> hold the same graph when
  \<^verbatim>\<open>self.assemblies\<close> is the same and \<^verbatim>\<open>self.dependency_graph\<close> has the same keys with
  the same sets; the lists may differ in the order in which a \<^verbatim>\<open>for\<close> loop visits the
  members of a set, which the source leaves to the hash order of the strings.
  \<open>fork_other_order\<close> is the graph of \<open>fork_input\<close> with the set \<open>{B, C}\<close> visited as
  \<open>C, B\<close>.
\<close>

definition same_graph :: "analyzer \<Rightarrow> analyzer \<Rightarrow> bool" where
  "same_graph a b \<longleftrightarrow>
     assemblies a = assemblies b \<and>
     map (\<lambda>(n, ds). (n, set ds)) (dependency_graph a) = map (\<lambda>(n, ds). (n, set ds)) (dependency_graph b)"

definition fork_input :: "asmdef list" where
  "fork_input = [module ''A'' [''B'', ''C''], module ''B'' [''A''], module ''C'' [''A'']]"

definition fork_other_order :: analyzer where
  "fork_other_order =
     (analyzer_of fork_input)\<lparr>dependency_graph := [(''A'', [''C'', ''B'']), (''B'', [''A'']), (''C'', [''A''])]\<rparr>"

section \<open>Properties of find\_cycles (Tools/dependency\_analyzer.py)\<close>

declare dfs.simps [simp del]
declare detect_dfs.simps [simp del]
declare strongconnect.simps [simp del]

text \<open>
  \<open>dfs_post\<close> is what a call of \<open>dfs\<close> guarantees when \<^verbatim>\<open>rec_stack\<close> holds exactly the
  modules of \<^verbatim>\<open>path\<close> before it: no exception, the same relation afterwards, one more
  cycle when it returns \<open>True\<close>, and \<^verbatim>\<open>path\<close>, \<^verbatim>\<open>rec_stack\<close> and \<^verbatim>\<open>cycles\<close> as before
  when it returns \<open>False\<close>.
\<close>

lemma list_index_None_iff: "list_index xs x = None \<longleftrightarrow> x \<notin> set xs"
  by (induction xs) auto

definition dfs_post :: "dfs_state \<Rightarrow> error + (bool \<times> dfs_state) \<Rightarrow> bool" where
  "dfs_post s r =
     (case r of
        Inl e \<Rightarrow> False
      | Inr (b, s') \<Rightarrow>
          rec_stack s' = set (path s') \<and> visited s \<subseteq> visited s' \<and>
          (if b then length (cycles s') = Suc (length (cycles s))
           else path s' = path s \<and> rec_stack s' = rec_stack s \<and> cycles s' = cycles s))"

lemma dfs_postD:
  "dfs_post s r \<Longrightarrow> \<exists>b s'. r = Inr (b, s') \<and> rec_stack s' = set (path s') \<and>
     visited s \<subseteq> visited s' \<and>
     (b \<longrightarrow> length (cycles s') = Suc (length (cycles s))) \<and>
     (\<not> b \<longrightarrow> path s' = path s \<and> rec_stack s' = rec_stack s \<and> cycles s' = cycles s)"
  by (auto simp: dfs_post_def split: sum.splits prod.splits if_splits)

lemma dfs_total:
  "rec_stack s = set (path s) \<Longrightarrow> dfs_post s (dfs g node s)"
  "rec_stack s = set (path s) \<Longrightarrow> dfs_post s (dfs_neighbors g ns s)"
proof (induction g node s and g ns s rule: dfs_dfs_neighbors.induct)
  case (1 g node s)
  show ?case
  proof (cases "node \<in> rec_stack s")
    case True
    with 1(2) obtain i where "list_index (path s) node = Some i"
      using list_index_None_iff[of "path s" node] by auto
    with True 1(2) show ?thesis
      by (simp add: dfs_post_def dfs.simps)
  next
    case nrec: False
    show ?thesis
    proof (cases "node \<in> visited s")
      case True
      with nrec 1(2) show ?thesis by (simp add: dfs_post_def dfs.simps)
    next
      case False
      let ?s1 = "s\<lparr>visited := insert node (visited s), rec_stack := insert node (rec_stack s),
                    path := path s @ [node]\<rparr>"
      have "dfs_post ?s1 (dfs_neighbors g (dict_get g node []) ?s1)"
        using 1(1)[OF nrec False] 1(2) by simp
      then obtain b s' where r: "dfs_neighbors g (dict_get g node []) ?s1 = Inr (b, s')"
        and inv: "rec_stack s' = set (path s')" and vis: "visited ?s1 \<subseteq> visited s'"
        and t: "b \<longrightarrow> length (cycles s') = Suc (length (cycles ?s1))"
        and f: "\<not> b \<longrightarrow> path s' = path ?s1 \<and> rec_stack s' = rec_stack ?s1 \<and> cycles s' = cycles ?s1"
        using dfs_postD by blast
      show ?thesis
      proof (cases b)
        case True
        with nrec False r inv vis t show ?thesis
          by (auto simp: dfs_post_def dfs.simps)
      next
        case bf: False
        with nrec False r f 1(2) show ?thesis
          using vis by (auto simp: dfs_post_def dfs.simps)
      qed
    qed
  qed
next
  case (2 g s)
  then show ?case by (simp add: dfs_post_def)
next
  case (3 g neighbor rest s)
  show ?case
  proof (cases "neighbor \<in> set (dict_keys g)")
    case False
    with 3 show ?thesis by simp
  next
    case True
    from dfs_postD[OF 3(1)[OF True 3(4)]] obtain b s' where r: "dfs g neighbor s = Inr (b, s')"
        and inv: "rec_stack s' = set (path s')" and vis: "visited s \<subseteq> visited s'"
        and t: "b \<longrightarrow> length (cycles s') = Suc (length (cycles s))"
        and f: "\<not> b \<longrightarrow> path s' = path s \<and> rec_stack s' = rec_stack s \<and> cycles s' = cycles s"
      by blast
    show ?thesis
    proof (cases b)
      case True
      with r inv vis t \<open>neighbor \<in> set (dict_keys g)\<close> show ?thesis
        by (auto simp: dfs_post_def)
    next
      case False
      from 3(2)[OF True r refl _ inv] False
      have "dfs_post s' (dfs_neighbors g rest s')" by simp
      then show ?thesis using r False True f vis
        by (auto simp: dfs_post_def split: sum.splits prod.splits if_splits)
    qed
  qed
qed


lemma dfs_cycles_step:
  "dfs g node s = Inr (b, s') \<Longrightarrow>
     (if b then \<exists>c. cycles s' = cycles s @ [c] else cycles s' = cycles s)"
  "dfs_neighbors g ns s = Inr (b, s') \<Longrightarrow>
     (if b then \<exists>c. cycles s' = cycles s @ [c] else cycles s' = cycles s)"
proof (induction g node s and g ns s arbitrary: b s' and b s' rule: dfs_dfs_neighbors.induct)
  case (1 g node s)
  show ?case
  proof (cases "node \<in> rec_stack s")
    case True
    with 1(2) show ?thesis by (auto simp: dfs.simps split: option.splits)
  next
    case nrec: False
    show ?thesis
    proof (cases "node \<in> visited s")
      case True
      with nrec 1(2) show ?thesis by (auto simp: dfs.simps)
    next
      case False
      let ?s1 = "s\<lparr>visited := insert node (visited s), rec_stack := insert node (rec_stack s),
                    path := path s @ [node]\<rparr>"
      from 1(2) nrec False obtain b1 s1 where
        r: "dfs_neighbors g (dict_get g node []) ?s1 = Inr (b1, s1)"
        by (auto simp: dfs.simps split: sum.splits)
      from 1(1)[OF nrec False r]
      have IH: "if b1 then \<exists>c. cycles s1 = cycles s @ [c] else cycles s1 = cycles s"
        by (auto split: if_splits)
      from 1(2) nrec False r have "b = b1 \<and> cycles s' = cycles s1"
        by (cases b1) (auto simp: dfs.simps split: if_splits)
      with IH show ?thesis by simp
    qed
  qed
next
  case (2 g s)
  then show ?case by simp
next
  case (3 g neighbor rest s)
  show ?case
  proof (cases "neighbor \<in> set (dict_keys g)")
    case False
    with 3(3)[OF False] 3(4) show ?thesis by simp
  next
    case True
    with 3(4) obtain b1 s1 where r: "dfs g neighbor s = Inr (b1, s1)"
      by (auto split: sum.splits)
    note IH1 = 3(1)[OF True r]
    show ?thesis
    proof (cases b1)
      case True
      with r 3(4) \<open>neighbor \<in> set (dict_keys g)\<close> have "b = True \<and> s' = s1" by simp
      with IH1 True show ?thesis by simp
    next
      case False
      with r 3(4) True have "dfs_neighbors g rest s1 = Inr (b, s')" by simp
      from 3(2)[OF True r refl _ this] False IH1 show ?thesis by (auto split: if_splits)
    qed
  qed
qed

lemma find_cycles_loop_bound:
  "rec_stack s = set (path s) \<Longrightarrow>
     \<exists>s'. find_cycles_loop g roots s = Inr s' \<and> rec_stack s' = set (path s') \<and>
          length (cycles s') \<le> length (cycles s) + length roots"
proof (induction roots arbitrary: s)
  case Nil
  then show ?case by simp
next
  case (Cons assembly rest)
  show ?case
  proof (cases "assembly \<in> visited s")
    case True
    with Cons.IH[OF Cons.prems] show ?thesis by auto
  next
    case False
    from dfs_postD[OF dfs_total(1)[OF Cons.prems, of g assembly]] obtain b s1 where
      r: "dfs g assembly s = Inr (b, s1)" and inv: "rec_stack s1 = set (path s1)"
      and t: "b \<longrightarrow> length (cycles s1) = Suc (length (cycles s))"
      and f: "\<not> b \<longrightarrow> cycles s1 = cycles s"
      by blast
    from t f have "length (cycles s1) \<le> Suc (length (cycles s))" by (cases b) auto
    moreover from Cons.IH[OF inv] obtain s' where
      "find_cycles_loop g rest s1 = Inr s'" "rec_stack s' = set (path s')"
      "length (cycles s') \<le> length (cycles s1) + length rest"
      by blast
    ultimately show ?thesis using False r by auto
  qed
qed

text \<open>
  Claim C10. A call of \<open>dfs\<close> that returns \<open>True\<close> has appended exactly one cycle and a
  call that returns \<open>False\<close> has appended none, whatever the state it starts in; so each
  start module of the outer loop adds at most one cycle. \<open>find_cycles\<close> raises nothing, and
  the number of cycles it returns is at most the number of modules (keys) of the graph.
\<close>

theorem find_cycles_one_cycle_per_start:
  "(\<forall>start s found s'. dfs g start s = Inr (found, s') \<longrightarrow>
      (if found then \<exists>c. cycles s' = cycles s @ [c] else cycles s' = cycles s)) \<and>
   (\<exists>cs. find_cycles g = Inr cs \<and> length cs \<le> length (dict_keys g))"
proof
  show "\<forall>start s found s'. dfs g start s = Inr (found, s') \<longrightarrow>
      (if found then \<exists>c. cycles s' = cycles s @ [c] else cycles s' = cycles s)"
    using dfs_cycles_step(1) by blast
next
  let ?s0 = "\<lparr>visited = {}, rec_stack = {}, path = [], cycles = []\<rparr>"
  have "rec_stack ?s0 = set (path ?s0)" by simp
  from find_cycles_loop_bound[OF this, of g "dict_keys g"]
  show "\<exists>cs. find_cycles g = Inr cs \<and> length cs \<le> length (dict_keys g)"
    by (auto simp: find_cycles_def)
qed

theorem find_cycles_one_cycle_per_start_witness:
  "dfs [(''A'', [''B'']), (''B'', [''A''])] ''A''
       \<lparr>visited = {}, rec_stack = {}, path = [], cycles = []\<rparr>
     = Inr (True, \<lparr>visited = {''B'', ''A''}, rec_stack = {''B'', ''A''}, path = [''A'', ''B''],
                   cycles = [[''A'', ''B'', ''A'']]\<rparr>) \<and>
   (\<exists>c. [[''A'', ''B'', ''A'']] = [] @ [c]) \<and>
   (\<exists>cs. find_cycles [(''A'', [''B'']), (''B'', [''A''])] = Inr cs \<and> length cs \<le> 2)"
proof -
  let ?g = "[(''A'', [''B'']), (''B'', [''A''])]"
  let ?s0 = "\<lparr>visited = {}, rec_stack = {}, path = [], cycles = []\<rparr>"
  let ?s1 = "\<lparr>visited = {''B'', ''A''}, rec_stack = {''B'', ''A''}, path = [''A'', ''B''],
                   cycles = [[''A'', ''B'', ''A'']]\<rparr>"
  have run: "dfs ?g ''A'' ?s0 = Inr (True, ?s1)"
    by (simp add: dfs.simps dict_keys_def dict_get_def)
  from find_cycles_one_cycle_per_start[of ?g] have
    step: "dfs ?g ''A'' ?s0 = Inr (True, ?s1) \<longrightarrow> (\<exists>c. cycles ?s1 = cycles ?s0 @ [c])"
    and total: "\<exists>cs. find_cycles ?g = Inr cs \<and> length cs \<le> length (dict_keys ?g)"
    by (auto simp del: dfs_neighbors.simps)
  from step run have "\<exists>c. [[''A'', ''B'', ''A'']] = [] @ [c]" by simp
  moreover from total have "\<exists>cs. find_cycles ?g = Inr cs \<and> length cs \<le> 2"
    by (simp add: dict_keys_def numeral_2_eq_2)
  ultimately show ?thesis using run by blast
qed


lemma load_stale: "load_assemblies stale_stack_input = [(''A'', [''B'']), (''B'', [''A'']), (''C'', [''A''])]"
  by (simp add: load_assemblies_def stale_stack_input_def module_def)

text \<open>
  Claim C3, at the input \<open>A \<rightarrow> B\<close>, \<open>B \<rightarrow> A\<close>, \<open>C \<rightarrow> A\<close>. The search from \<open>A\<close> finds
  \<open>[A, B, A]\<close> and returns through \<^verbatim>\<open>return True\<close>, so \<open>A\<close> and \<open>B\<close> stay in
  \<^verbatim>\<open>rec_stack\<close> and \<^verbatim>\<open>path\<close>. The search from \<open>C\<close> then meets \<open>A\<close> in \<^verbatim>\<open>rec_stack\<close> and
  emits \<open>[A, B, C, A]\<close>, although \<open>B \<rightarrow> C\<close> is not an edge: the emitted sequence is not
  a cycle of the graph.
\<close>

theorem find_cycles_emits_non_cycle:
  "find_cycles (load_assemblies stale_stack_input)
     = Inr [[''A'', ''B'', ''A''], [''A'', ''B'', ''C'', ''A'']] \<and>
   \<not> known_edge (load_assemblies stale_stack_input) ''B'' ''C'' \<and>
   \<not> well_formed_cycle (load_assemblies stale_stack_input) [''A'', ''B'', ''C'', ''A'']"
  by (simp add: load_stale find_cycles_def dfs.simps dict_keys_def dict_get_def
      well_formed_cycle_def known_edge_def)

lemma load_abandoned:
  "load_assemblies abandoned_component_input
     = [(''C'', [''A'', ''D'']), (''A'', [''B'']), (''B'', [''A'']), (''D'', [''C''])]"
  by (simp add: load_assemblies_def abandoned_component_input_def module_def)

lemma analyzer_abandoned:
  "analyzer_of abandoned_component_input =
     \<lparr>assemblies = [(''C'', module ''C'' [''A'', ''D'']), (''A'', module ''A'' [''B'']),
                    (''B'', module ''B'' [''A'']), (''D'', module ''D'' [''C''])],
      dependency_graph = [(''C'', [''A'', ''D'']), (''A'', [''B'']), (''B'', [''A'']), (''D'', [''C''])],
      reverse_dependency_graph = [(''A'', [''C'', ''B'']), (''D'', [''C'']), (''B'', [''A'']), (''C'', [''D''])]\<rparr>"
  by (simp add: analyzer_of_def load_assembly_definitions_def analyzer_init_def
      abandoned_component_input_def module_def build_dependency_graph_def add_dependency_def
      defaultdict_add_def set_add_def dict_get_def)

lemma scc_abandoned:
  "find_strongly_connected_components (analyzer_of abandoned_component_input)
     = Inr [[''B'', ''A''], [''D'', ''C'']]"
  by (simp add: analyzer_abandoned find_strongly_connected_components_def tarjan_def tarjan_init_def
      strongconnect.simps enter_def emit_component_def lowlink_from_child_def lowlink_from_stack_def
      dict_keys_def dict_get_def)

lemma detect_abandoned:
  "detect_circular_dependencies (analyzer_of abandoned_component_input)
     = Inr [[''A'', ''B'', ''A''], [''C'', ''D'', ''C'']]"
  by (simp add: analyzer_abandoned detect_circular_dependencies_def detect_dfs.simps
      dict_keys_def dict_get_def)

text \<open>
  Claim C1, at the input \<open>C \<rightarrow> A, D\<close>, \<open>A \<rightarrow> B\<close>, \<open>B \<rightarrow> A\<close>, \<open>D \<rightarrow> C\<close>. The SCC finder
  returns the components \<open>{A, B}\<close> and \<open>{C, D}\<close>. \<open>find_cycles\<close> leaves the search from
  \<open>C\<close> as soon as \<open>[A, B, A]\<close> is found, so the edge \<open>C \<rightarrow> D\<close> is never followed, and
  neither of the two sequences it returns lies inside \<open>{C, D}\<close>.
  \<open>detect_circular_dependencies\<close>, which has no early return, finds \<open>[C, D, C]\<close>.
\<close>

theorem find_cycles_misses_component:
  "find_strongly_connected_components (analyzer_of abandoned_component_input)
     = Inr [[''B'', ''A''], [''D'', ''C'']] \<and>
   find_cycles (load_assemblies abandoned_component_input)
     = Inr [[''A'', ''B'', ''A''], [''C'', ''A'', ''B'', ''D'', ''C'']] \<and>
   \<not> set [''A'', ''B'', ''A''] \<subseteq> set [''D'', ''C''] \<and>
   \<not> set [''C'', ''A'', ''B'', ''D'', ''C''] \<subseteq> set [''D'', ''C''] \<and>
   detect_circular_dependencies (analyzer_of abandoned_component_input)
     = Inr [[''A'', ''B'', ''A''], [''C'', ''D'', ''C'']]"
  by (simp add: scc_abandoned detect_abandoned load_abandoned find_cycles_def dfs.simps
      dict_keys_def dict_get_def)

section \<open>Acyclic graphs\<close>

text \<open>
  On an acyclic graph \<open>dfs\<close> never meets a module of \<^verbatim>\<open>rec_stack\<close>: every module of
  \<^verbatim>\<open>path\<close> reaches the last one, so an edge from the last one back into \<^verbatim>\<open>path\<close> would
  close a cycle. Every call then returns \<open>False\<close> and restores \<^verbatim>\<open>path\<close> and
  \<^verbatim>\<open>rec_stack\<close>.
\<close>

lemma dict_get_key:
  assumes "n \<in> set (dict_get g a [])"
  shows "a \<in> set (dict_keys g)"
proof (cases "map_of g a")
  case None
  with assms show ?thesis by (simp add: dict_get_def)
next
  case (Some refs)
  then have "(a, refs) \<in> set g" by (rule map_of_SomeD)
  then show ?thesis by (force simp: dict_keys_def)
qed

definition on_path :: "name list dict \<Rightarrow> dfs_state \<Rightarrow> bool" where
  "on_path g s \<longleftrightarrow> rec_stack s = set (path s) \<and>
     (\<forall>x \<in> set (path s). (x, last (path s)) \<in> (known_edges g)\<^sup>*)"

lemma dfs_acyclic:
  "acyclic (known_edges g) \<Longrightarrow> on_path g s \<Longrightarrow> path s = [] \<or> (last (path s), node) \<in> known_edges g \<Longrightarrow>
     \<exists>s'. dfs g node s = Inr (False, s') \<and> path s' = path s \<and> rec_stack s' = rec_stack s \<and>
          cycles s' = cycles s"
  "acyclic (known_edges g) \<Longrightarrow> on_path g s \<Longrightarrow>
     \<forall>n \<in> set ns. n \<in> set (dict_keys g) \<longrightarrow>
        path s \<noteq> [] \<and> (last (path s), n) \<in> known_edges g \<Longrightarrow>
     \<exists>s'. dfs_neighbors g ns s = Inr (False, s') \<and> path s' = path s \<and> rec_stack s' = rec_stack s \<and>
          cycles s' = cycles s"
proof (induction g node s and g ns s rule: dfs_dfs_neighbors.induct)
  case (1 g node s)
  note ac = 1(2)
  have nrec: "node \<notin> rec_stack s"
  proof
    assume "node \<in> rec_stack s"
    with 1(3) have mem: "node \<in> set (path s)" and
      reach: "(node, last (path s)) \<in> (known_edges g)\<^sup>*"
      by (auto simp: on_path_def)
    from mem have "path s \<noteq> []" by auto
    with 1(4) have "(last (path s), node) \<in> known_edges g" by simp
    with reach have "(node, node) \<in> (known_edges g)\<^sup>+" by (rule rtrancl_into_trancl1)
    with ac show False by (simp add: acyclic_def)
  qed
  show ?case
  proof (cases "node \<in> visited s")
    case True
    with nrec show ?thesis by (simp add: dfs.simps)
  next
    case False
    let ?s1 = "s\<lparr>visited := insert node (visited s), rec_stack := insert node (rec_stack s),
                  path := path s @ [node]\<rparr>"
    have inv1: "on_path g ?s1"
    proof -
      have "(x, node) \<in> (known_edges g)\<^sup>*" if "x \<in> set (path s)" for x
      proof -
        from that have "path s \<noteq> []" by auto
        with 1(4) have "(last (path s), node) \<in> known_edges g" by simp
        moreover from that 1(3) have "(x, last (path s)) \<in> (known_edges g)\<^sup>*"
          by (simp add: on_path_def)
        ultimately show ?thesis by (rule rtrancl_into_rtrancl[rotated])
      qed
      with 1(3) show ?thesis by (auto simp: on_path_def)
    qed
    have pre1: "\<forall>n \<in> set (dict_get g node []). n \<in> set (dict_keys g) \<longrightarrow>
        path ?s1 \<noteq> [] \<and> (last (path ?s1), n) \<in> known_edges g"
      using dict_get_key[of _ g node] by (auto simp: known_edges_def known_edge_def)
    from 1(1)[OF nrec False ac inv1 pre1] obtain s' where
      r: "dfs_neighbors g (dict_get g node []) ?s1 = Inr (False, s')"
      and p: "path s' = path ?s1" and rs: "rec_stack s' = rec_stack ?s1"
      and c: "cycles s' = cycles ?s1"
      by blast
    with nrec False show ?thesis by (simp add: dfs.simps)
  qed
next
  case (2 g s)
  then show ?case by simp
next
  case (3 g neighbor rest s)
  note ac = 3(4)
  show ?case
  proof (cases "neighbor \<in> set (dict_keys g)")
    case False
    from 3(6) have pre: "\<forall>n \<in> set rest. n \<in> set (dict_keys g) \<longrightarrow>
        path s \<noteq> [] \<and> (last (path s), n) \<in> known_edges g" by simp
    from 3(3)[OF False ac 3(5) pre] False show ?thesis by simp
  next
    case True
    with 3(6) have "path s = [] \<or> (last (path s), neighbor) \<in> known_edges g" by simp
    from 3(1)[OF True ac 3(5) this] obtain s1 where
      r: "dfs g neighbor s = Inr (False, s1)"
      and p: "path s1 = path s" and rs: "rec_stack s1 = rec_stack s" and c: "cycles s1 = cycles s"
      by blast
    from 3(5) p rs have inv1: "on_path g s1" by (simp add: on_path_def)
    from 3(6) p have pre1: "\<forall>n \<in> set rest. n \<in> set (dict_keys g) \<longrightarrow>
        path s1 \<noteq> [] \<and> (last (path s1), n) \<in> known_edges g" by simp
    from 3(2)[OF True r refl _ ac inv1 pre1] obtain s' where
      "dfs_neighbors g rest s1 = Inr (False, s')" "path s' = path s1"
      "rec_stack s' = rec_stack s1" "cycles s' = cycles s1"
      by auto
    with True r p rs c show ?thesis by simp
  qed
qed

lemma find_cycles_loop_acyclic:
  assumes ac: "acyclic (known_edges g)"
  shows "path s = [] \<Longrightarrow> rec_stack s = {} \<Longrightarrow>
     \<exists>s'. find_cycles_loop g roots s = Inr s' \<and> cycles s' = cycles s"
proof (induction roots arbitrary: s)
  case Nil
  then show ?case by simp
next
  case (Cons assembly rest)
  from Cons.prems have inv: "on_path g s" by (simp add: on_path_def)
  from dfs_acyclic(1)[OF ac inv, of assembly] Cons.prems obtain s1 where
    r: "dfs g assembly s = Inr (False, s1)" and p: "path s1 = []" and rs: "rec_stack s1 = {}"
    and c: "cycles s1 = cycles s" by auto
  from Cons.IH[OF p rs] Cons.IH[OF Cons.prems] r c show ?case by (cases "assembly \<in> visited s") auto
qed

lemma find_cycles_acyclic: "acyclic (known_edges g) \<Longrightarrow> find_cycles g = Inr []"
  using find_cycles_loop_acyclic[of g "\<lparr>visited = {}, rec_stack = {}, path = [], cycles = []\<rparr>" "dict_keys g"]
  by (auto simp: find_cycles_def)

text \<open>
  On an acyclic graph every call of \<open>strongconnect\<close> pops exactly the node it pushed: the
  stack holds the nodes of the active calls only, each reaching the top one, so a
  successor on the stack would close a cycle and \<^verbatim>\<open>lowlinks[node]\<close> stays equal to
  \<^verbatim>\<open>index[node]\<close>. \<open>frame s s'\<close> says that a call leaves the stack, the result list and
  the entries of the nodes numbered before it as they were.
\<close>

definition is_on_stack :: "tarjan_state \<Rightarrow> name \<Rightarrow> bool" where
  "is_on_stack s n = (case on_stack s n of None \<Rightarrow> False | Some b \<Rightarrow> b)"

definition dag_inv :: "(name \<times> name) set \<Rightarrow> tarjan_state \<Rightarrow> bool" where
  "dag_inv E s \<longleftrightarrow>
     (\<forall>n. is_on_stack s n = (n \<in> set (stack s))) \<and>
     (\<forall>n \<in> set (stack s). index s n \<noteq> None) \<and>
     (\<forall>n i. index s n = Some i \<longrightarrow> i < index_counter s) \<and>
     (\<forall>x \<in> set (stack s). (x, hd (stack s)) \<in> E\<^sup>*)"

definition frame :: "tarjan_state \<Rightarrow> tarjan_state \<Rightarrow> bool" where
  "frame s s' \<longleftrightarrow> stack s' = stack s \<and> components s' = components s \<and>
     (\<forall>n. index s n \<noteq> None \<longrightarrow> index s' n = index s n \<and> lowlinks s' n = lowlinks s n)"

lemma frame_refl [simp]: "frame s s"
  by (simp add: frame_def)

lemma frame_trans: "frame s s1 \<Longrightarrow> frame s1 s2 \<Longrightarrow> frame s s2"
  by (auto simp: frame_def)

lemma dag_inv_enter:
  assumes inv: "dag_inv E s" and new: "index s node = None"
    and edge: "stack s = [] \<or> (hd (stack s), node) \<in> E"
  shows "dag_inv E (enter node s)"
proof -
  have "(x, node) \<in> E\<^sup>*" if "x \<in> set (stack s)" for x
  proof -
    from that have "stack s \<noteq> []" by auto
    with edge have "(hd (stack s), node) \<in> E" by simp
    moreover from that inv have "(x, hd (stack s)) \<in> E\<^sup>*" by (simp add: dag_inv_def)
    ultimately show ?thesis by (rule rtrancl_into_rtrancl[rotated])
  qed
  with inv show ?thesis
    by (auto simp: dag_inv_def enter_def is_on_stack_def less_Suc_eq)
qed

lemma dag_inv_leave:
  assumes inv: "dag_inv E s" and new: "index s node = None"
    and inv2: "dag_inv E s2" and st: "stack s2 = node # stack s"
  shows "dag_inv E (s2\<lparr>stack := stack s, on_stack := (on_stack s2)(node \<mapsto> False)\<rparr>)"
proof -
  from inv new have "node \<notin> set (stack s)" by (auto simp: dag_inv_def)
  with inv inv2 st show ?thesis
    by (auto simp: dag_inv_def is_on_stack_def)
qed

lemma strongconnect_acyclic:
  "acyclic E \<Longrightarrow> E = tarjan_edges known g \<Longrightarrow> dag_inv E s \<Longrightarrow> index s node = None \<Longrightarrow>
     stack s = [] \<or> (hd (stack s), node) \<in> E \<Longrightarrow>
     \<exists>s'. strongconnect known g node s = Inr s' \<and> dag_inv E s' \<and> frame s s' \<and>
          index s' node = Some (index_counter s) \<and> lowlinks s' node = Some (index_counter s)"
  "acyclic E \<Longrightarrow> E = tarjan_edges known g \<Longrightarrow> dag_inv E s \<Longrightarrow> stack s = node # stk \<Longrightarrow>
     index s node = Some i \<Longrightarrow> lowlinks s node = Some i \<Longrightarrow>
     \<forall>n \<in> set succs. known n \<longrightarrow> (node, n) \<in> E \<Longrightarrow>
     \<exists>s'. strongconnect_successors known g node succs s = Inr s' \<and> dag_inv E s' \<and> frame s s'"
proof (induction known g node s and known g node succs s arbitrary: and stk i
    rule: strongconnect_strongconnect_successors.induct)
  case (1 known g node s)
  note ac = 1(2) and E = 1(3) and inv = 1(4) and new = 1(5) and edge = 1(6)
  let ?c = "index_counter s"
  let ?s1 = "enter node s"
  have inv1: "dag_inv E ?s1" using inv new edge by (rule dag_inv_enter)
  have st1: "stack ?s1 = node # stack s" by (simp add: enter_def)
  have i1: "index ?s1 node = Some ?c" and l1: "lowlinks ?s1 node = Some ?c"
    by (simp_all add: enter_def)
  have pre: "\<forall>n \<in> set (dict_get g node []). known n \<longrightarrow> (node, n) \<in> E"
    by (simp add: E tarjan_edges_def)
  from 1(1)[OF ac E inv1 st1 i1 l1 pre] obtain s2 where
    r: "strongconnect_successors known g node (dict_get g node []) ?s1 = Inr s2"
    and inv2: "dag_inv E s2" and fr: "frame ?s1 s2"
    by blast
  from fr i1 l1 st1 have st2: "stack s2 = node # stack s" and i2: "index s2 node = Some ?c"
    and l2: "lowlinks s2 node = Some ?c" and c2: "components s2 = components s"
    by (auto simp: frame_def enter_def)
  let ?s' = "s2\<lparr>stack := stack s, on_stack := (on_stack s2)(node \<mapsto> False)\<rparr>"
  have em: "emit_component node s2 = Inr ?s'"
    by (simp add: emit_component_def i2 l2 st2)
  have "dag_inv E ?s'" using inv new inv2 st2 by (rule dag_inv_leave)
  moreover have "frame s ?s'"
    using fr new c2 by (auto simp: frame_def enter_def)
  ultimately show ?case using r em i2 l2 by (simp add: strongconnect.simps)
next
  case (2 known g node s)
  then show ?case by simp
next
  case (3 known g node successor rest s)
  note ac = 3(6) and E = 3(7) and inv = 3(8) and st = 3(9) and idx = 3(10) and low = 3(11)
    and pre = 3(12)
  from pre have pre': "\<forall>n \<in> set rest. known n \<longrightarrow> (node, n) \<in> E" by simp
  show ?case
  proof (cases "known successor")
    case False
    from 3(1)[OF False ac E inv st idx low pre'] False show ?thesis by simp
  next
    case known: True
    with pre have edge: "(node, successor) \<in> E" by simp
    have nn: "\<not> \<not> known successor" using known by simp
    show ?thesis
    proof (cases "index s successor = None")
      case unseen: True
      from st edge have "stack s = [] \<or> (hd (stack s), successor) \<in> E" by simp
      from 3(2)[OF nn unseen ac E inv unseen this] obtain s1 where
        r1: "strongconnect known g successor s = Inr s1" and inv1: "dag_inv E s1"
        and fr1: "frame s s1" and i1: "index s1 successor = Some (index_counter s)"
        and l1: "lowlinks s1 successor = Some (index_counter s)"
        by blast
      from fr1 st idx low have st1: "stack s1 = node # stk" and idx1: "index s1 node = Some i"
        and low1: "lowlinks s1 node = Some i"
        by (auto simp: frame_def)
      from inv idx have "i < index_counter s" by (auto simp: dag_inv_def)
      then have "(lowlinks s1)(node \<mapsto> min i (index_counter s)) = lowlinks s1"
        using low1 by (auto simp: min_def)
      then have r2: "lowlink_from_child node successor s1 = Inr s1"
        by (simp add: lowlink_from_child_def low1 l1)
      from 3(3)[OF nn unseen r1 r2 ac E inv1 st1 idx1 low1 pre'] obtain s' where
        "strongconnect_successors known g node rest s1 = Inr s'" "dag_inv E s'" "frame s1 s'"
        by blast
      with known unseen r1 r2 fr1 show ?thesis
        by (auto intro: frame_trans)
    next
      case seen: False
      have "\<not> is_on_stack s successor"
      proof
        assume "is_on_stack s successor"
        with inv have "successor \<in> set (stack s)" by (simp add: dag_inv_def)
        with inv st have "(successor, node) \<in> E\<^sup>*" by (auto simp: dag_inv_def)
        with edge have "(node, node) \<in> E\<^sup>+" by (rule rtrancl_into_trancl2)
        with ac show False by (simp add: acyclic_def)
      qed
      then have off: "\<not> (case on_stack s successor of None \<Rightarrow> False | Some b \<Rightarrow> b)"
        by (simp add: is_on_stack_def)
      from 3(5)[OF nn seen off ac E inv st idx low pre'] known seen off show ?thesis
        by (simp del: not_None_eq)
    qed
  qed
qed

lemma strongconnect_roots_acyclic:
  assumes ac: "acyclic (tarjan_edges known g)"
  shows "dag_inv (tarjan_edges known g) s \<Longrightarrow> stack s = [] \<Longrightarrow>
     \<exists>s'. strongconnect_roots known g roots s = Inr s' \<and> components s' = components s"
proof (induction roots arbitrary: s)
  case Nil
  then show ?case by simp
next
  case (Cons node rest)
  show ?case
  proof (cases "index s node = None")
    case True
    from strongconnect_acyclic(1)[OF ac refl Cons.prems(1) True] Cons.prems(2) obtain s1 where
      r: "strongconnect known g node s = Inr s1" and inv1: "dag_inv (tarjan_edges known g) s1"
      and fr: "frame s s1" by auto
    from fr Cons.prems(2) have "stack s1 = []" "components s1 = components s"
      by (auto simp: frame_def)
    with Cons.IH[OF inv1] r True show ?thesis by auto
  next
    case False
    with Cons.IH[OF Cons.prems] show ?thesis by auto
  qed
qed

lemma tarjan_acyclic: "acyclic (tarjan_edges known g) \<Longrightarrow> tarjan known g roots = Inr []"
proof -
  assume ac: "acyclic (tarjan_edges known g)"
  have "dag_inv (tarjan_edges known g) tarjan_init"
    by (simp add: dag_inv_def tarjan_init_def is_on_stack_def)
  from strongconnect_roots_acyclic[OF ac this, of roots] show ?thesis
    by (auto simp: tarjan_def tarjan_init_def)
qed

lemma all_edges_known:
  assumes "(x, y) \<in> (tarjan_edges (\<lambda>_. True) g)\<^sup>+" and "y \<in> set (dict_keys g)"
  shows "(x, y) \<in> (known_edges g)\<^sup>+"
  using assms
proof (induction rule: trancl_induct)
  case (base y)
  then show ?case
    by (auto simp: tarjan_edges_def known_edges_def known_edge_def dest: dict_get_key)
next
  case (step y z)
  from step(2) have yk: "y \<in> set (dict_keys g)"
    by (auto simp: tarjan_edges_def dest: dict_get_key)
  with step(2,4) have "(y, z) \<in> known_edges g"
    by (auto simp: tarjan_edges_def known_edges_def known_edge_def)
  with step(3)[OF yk] show ?case by (rule trancl_into_trancl)
qed

lemma acyclic_all_edges:
  assumes "acyclic (known_edges g)"
  shows "acyclic (tarjan_edges (\<lambda>_. True) g)"
proof (rule acyclicI, rule allI, rule notI)
  fix x
  assume c: "(x, x) \<in> (tarjan_edges (\<lambda>_. True) g)\<^sup>+"
  then obtain z where "(x, z) \<in> tarjan_edges (\<lambda>_. True) g" by (auto dest: tranclD)
  then have "x \<in> set (dict_keys g)" by (auto simp: tarjan_edges_def dest: dict_get_key)
  with c have "(x, x) \<in> (known_edges g)\<^sup>+" by (rule all_edges_known)
  with assms show False by (simp add: acyclic_def)
qed

text \<open>
  Claim C9. On a graph with no directed cycle among its known modules, \<open>find_cycles\<close>
  returns no cycle and the SCC finder of \<^verbatim>\<open>analyze_circular_deps.py\<close> returns no
  component; neither raises.
\<close>

theorem acyclic_graph_no_cycles_no_components:
  "acyclic (known_edges g) \<Longrightarrow>
     find_cycles g = Inr [] \<and> acd_find_strongly_connected_components g = Inr []"
  using find_cycles_acyclic[of g] tarjan_acyclic[OF acyclic_all_edges, of g "dict_keys g"]
  by (simp add: acd_find_strongly_connected_components_def)

lemma acyclic_chain_input: "acyclic (known_edges chain_input)"
proof (rule acyclicI_order[where f = "\<lambda>n. if n = ''A'' then 2 else if n = ''B'' then 1 else (0::nat)"])
  fix a b
  assume "(a, b) \<in> known_edges chain_input"
  then have "(a = ''A'' \<and> b = ''B'') \<or> (a = ''B'' \<and> b = ''C'')"
    by (auto simp: known_edges_def known_edge_def chain_input_def dict_get_def dict_keys_def
        split: if_splits)
  then show "(if b = ''A'' then 2 else if b = ''B'' then 1 else (0::nat))
     < (if a = ''A'' then 2 else if a = ''B'' then 1 else 0)"
    by auto
qed

theorem acyclic_graph_no_cycles_no_components_witness:
  "acyclic (known_edges chain_input) \<and> find_cycles chain_input = Inr [] \<and>
   acd_find_strongly_connected_components chain_input = Inr []"
  using acyclic_graph_no_cycles_no_components[OF acyclic_chain_input] acyclic_chain_input
  by simp

section \<open>Duplicate declarations\<close>

lemma map_of_dict_set: "map_of (dict_set d k v) = (map_of d)(k \<mapsto> v)"
  by (induction d k v rule: dict_set.induct) auto

lemma last_declaration_Nil [simp]: "last_declaration n [] = None"
  by (simp add: last_declaration_def)

lemma last_declaration_Cons:
  "last_declaration n (d # ds) =
     (case last_declaration n ds of
        Some x \<Rightarrow> Some x
      | None \<Rightarrow> if asm_name d = n then Some d else None)"
  by (auto simp: last_declaration_def split: list.splits)

lemma fold_dict_set_last:
  "map_of (fold (\<lambda>d acc. dict_set acc (asm_name d) (f d)) ds acc) n =
     (case last_declaration n ds of None \<Rightarrow> map_of acc n | Some d \<Rightarrow> Some (f d))"
proof (induction ds arbitrary: acc)
  case Nil
  then show ?case by simp
next
  case (Cons d ds)
  show ?case
    by (simp add: Cons.IH map_of_dict_set last_declaration_Cons split: option.splits)
qed

lemma acd_collect_fold:
  "fold (\<lambda>r assemblies. case r of None \<Rightarrow> assemblies
                         | Some asmdef \<Rightarrow> dict_set assemblies (asm_name asmdef) asmdef) parsed acc
     = fold (\<lambda>d acc. dict_set acc (asm_name d) d) (parsed_files parsed) acc"
  by (induction parsed arbitrary: acc) (auto simp: parsed_files_def split: option.splits)

lemma load_assembly_definitions_fold:
  "fold (\<lambda>data (a, out).
             (a\<lparr>assemblies := dict_set (assemblies a) (asm_name data) data\<rparr>,
              out @ [''Loaded: '' @ asm_name data])) files (a, out)
     = (a\<lparr>assemblies := fold (\<lambda>d acc. dict_set acc (asm_name d) d) files (assemblies a)\<rparr>,
        out @ map (\<lambda>d. ''Loaded: '' @ asm_name d) files)"
  by (induction files arbitrary: a out) auto

lemma load_assembly_definitions_eq:
  "load_assembly_definitions files a
     = (a\<lparr>assemblies := fold (\<lambda>d acc. dict_set acc (asm_name d) d) files (assemblies a)\<rparr>,
        map (\<lambda>d. ''Loaded: '' @ asm_name d) files)"
  unfolding load_assembly_definitions_def
  using load_assembly_definitions_fold[of files a "[]"] by simp

lemma acd_collect_eq:
  "acd_collect parsed = fold (\<lambda>d acc. dict_set acc (asm_name d) d) (parsed_files parsed) []"
  unfolding acd_collect_def by (rule acd_collect_fold)

text \<open>
  Claim C7, as the code has it. Graph construction cannot fail on a duplicate name (the
  assignment \<^verbatim>\<open>assemblies[name] = ...\<close> raises nothing), and the entry kept for a name is
  the last declaration with that name, in \<^verbatim>\<open>analyze_circular_deps.py\<close> and in
  \<^verbatim>\<open>assembly_dependency_analyzer.py\<close> alike. The only lines the latter prints are one
  \<^verbatim>\<open>Loaded: name\<close> per file; nothing marks a duplicate.
\<close>

theorem duplicate_declaration_last_wins:
  "map_of (fst (acd_build_dependency_graph parsed)) n = last_declaration n (parsed_files parsed) \<and>
   map_of (assemblies (fst (load_assembly_definitions files analyzer_init))) n
     = last_declaration n files \<and>
   snd (load_assembly_definitions files analyzer_init) = map (\<lambda>d. ''Loaded: '' @ asm_name d) files"
  by (simp add: acd_build_dependency_graph_def Let_def acd_collect_eq
      fold_dict_set_last load_assembly_definitions_eq analyzer_init_def split: option.splits)

theorem duplicate_declaration_last_wins_witness:
  "map_of (fst (acd_build_dependency_graph (map Some duplicate_input))) ''M'' = Some (module ''M'' []) \<and>
   map_of (assemblies (fst (load_assembly_definitions duplicate_input analyzer_init))) ''M''
     = Some (module ''M'' []) \<and>
   snd (load_assembly_definitions duplicate_input analyzer_init)
     = [''Loaded: M'', ''Loaded: A'', ''Loaded: M'']"
  using duplicate_declaration_last_wins[of "map Some duplicate_input" "''M''" duplicate_input]
  by (simp add: duplicate_input_def last_declaration_def parsed_files_def module_def)

text \<open>
  Claim C7 as stated fails: with \<open>M\<close> declared twice with different dependencies,
  \<^verbatim>\<open>build_dependency_graph\<close> of \<^verbatim>\<open>analyze_circular_deps.py\<close> returns exactly what it
  returns when the first declaration is absent, so nothing fails and nothing records the
  overwritten declaration.
\<close>

theorem duplicate_declaration_silently_overwritten:
  "acd_build_dependency_graph [Some (module ''M'' [''A'']), Some (module ''A'' []), Some (module ''M'' [])]
     = acd_build_dependency_graph [Some (module ''M'' []), Some (module ''A'' [])] \<and>
   acd_build_dependency_graph [Some (module ''M'' [''A'']), Some (module ''A'' []), Some (module ''M'' [])]
     = ([(''M'', module ''M'' []), (''A'', module ''A'' [])], []) \<and>
   load_assembly_definitions [module ''M'' [''A''], module ''A'' [], module ''M'' []] analyzer_init
     = (\<lparr>assemblies = [(''M'', module ''M'' []), (''A'', module ''A'' [])],
         dependency_graph = [], reverse_dependency_graph = []\<rparr>,
        [''Loaded: M'', ''Loaded: A'', ''Loaded: M''])"
  by (simp add: acd_build_dependency_graph_def acd_collect_def Let_def module_def dict_keys_def
      load_assembly_definitions_def analyzer_init_def)

section \<open>Violations\<close>

lemma last_declaration_None_iff: "last_declaration n ds = None \<longleftrightarrow> n \<notin> asm_name ` set ds"
  by (induction ds) (auto simp: last_declaration_Cons split: option.splits)

lemma last_declaration_SomeD:
  "last_declaration n ds = Some d \<Longrightarrow> d \<in> set ds \<and> asm_name d = n"
  by (induction ds) (auto simp: last_declaration_Cons split: option.splits if_splits)

lemma map_of_load_assemblies:
  "map_of (load_assemblies files) n = map_option references (last_declaration n files)"
  unfolding load_assemblies_def
  by (simp add: fold_dict_set_last[where f = references] split: option.splits)

lemma dict_keys_map_of: "n \<in> set (dict_keys d) \<longleftrightarrow> map_of d n \<noteq> None"
  by (simp add: dict_keys_def map_of_eq_None_iff)

lemma keys_load_assemblies: "set (dict_keys (load_assemblies files)) = asm_name ` set files"
  by (auto simp: dict_keys_map_of map_of_load_assemblies last_declaration_None_iff
      simp del: not_None_eq)

lemma external_only_no_edges:
  assumes "\<forall>d \<in> set files. \<forall>r \<in> set (references d). r \<notin> asm_name ` set files"
  shows "known_edges (load_assemblies files) = {}"
proof -
  have False if "known_edge (load_assemblies files) a b" for a b
  proof -
    from that have bk: "b \<in> asm_name ` set files"
      and bm: "b \<in> set (dict_get (load_assemblies files) a [])"
      by (simp_all add: known_edge_def keys_load_assemblies)
    from bm obtain d where "last_declaration a files = Some d" "b \<in> set (references d)"
      by (cases "last_declaration a files") (auto simp: dict_get_def map_of_load_assemblies)
    with last_declaration_SomeD[of a files d] assms bk show False by blast
  qed
  then show ?thesis by (auto simp: known_edges_def)
qed

lemma missing_dependencies_editor_check [simp]:
  "missing_dependencies (editor_check a n info v) = missing_dependencies v"
proof -
  have "missing_dependencies (fold (\<lambda>dep v.
                if dep \<in> set (dict_keys (assemblies a)) \<and> \<not> is_editor dep then
                  (if n \<in> set (dict_get (dependency_graph a) dep [])
                   then v\<lparr>editor_runtime_cycles := editor_runtime_cycles v @ [n @ '' <-> '' @ dep]\<rparr>
                   else v)
                else v) deps v) = missing_dependencies v" for deps
    by (induction deps arbitrary: v) auto
  then show ?thesis by (simp add: editor_check_def)
qed

lemma missing_dependencies_test_check [simp]:
  "missing_dependencies (test_check a n info v) = missing_dependencies v"
proof -
  have "missing_dependencies (fold (\<lambda>dep v.
                if dep \<in> set (dict_keys (assemblies a)) \<and> \<not> is_test dep then
                  (if n \<in> set (dict_get (dependency_graph a) dep [])
                   then v\<lparr>test_production_cycles := test_production_cycles v @ [n @ '' <-> '' @ dep]\<rparr>
                   else v)
                else v) deps v) = missing_dependencies v" for deps
    by (induction deps arbitrary: v) auto
  then show ?thesis by (simp add: test_check_def)
qed

lemma missing_dependencies_fold:
  "missing_dependencies (fold (\<lambda>(assembly_name, assembly_info) v.
             test_check a assembly_name assembly_info
               (editor_check a assembly_name assembly_info v)) xs v) = missing_dependencies v"
  by (induction xs arbitrary: v) auto

text \<open>
  Claim C6, as the code has it. \<^verbatim>\<open>analyze_dependency_violations\<close> creates the list
  \<^verbatim>\<open>missing_dependencies\<close> and never appends to it, so no dangling reference is reported
  for any input. When no declared dependency of any module is itself a declared module,
  \<open>find_cycles\<close> follows no edge and returns no cycle.
\<close>

theorem no_dangling_reference_violation:
  "missing_dependencies (analyze_dependency_violations a) = [] \<and>
   ((\<forall>d \<in> set files. \<forall>r \<in> set (references d). r \<notin> asm_name ` set files) \<longrightarrow>
      find_cycles (load_assemblies files) = Inr [])"
proof
  show "missing_dependencies (analyze_dependency_violations a) = []"
    by (simp add: analyze_dependency_violations_def missing_dependencies_fold)
next
  show "(\<forall>d \<in> set files. \<forall>r \<in> set (references d). r \<notin> asm_name ` set files) \<longrightarrow>
      find_cycles (load_assemblies files) = Inr []"
  proof
    assume "\<forall>d \<in> set files. \<forall>r \<in> set (references d). r \<notin> asm_name ` set files"
    then have "known_edges (load_assemblies files) = {}" by (rule external_only_no_edges)
    then have "acyclic (known_edges (load_assemblies files))" by (simp add: acyclic_def)
    then show "find_cycles (load_assemblies files) = Inr []" by (rule find_cycles_acyclic)
  qed
qed

theorem no_dangling_reference_violation_witness:
  "map references external_input = [[''External.Lib'']] \<and>
   ''External.Lib'' \<notin> asm_name ` set external_input \<and>
   missing_dependencies (analyze_dependency_violations (analyzer_of external_input)) = [] \<and>
   find_cycles (load_assemblies external_input) = Inr []"
proof -
  have h: "\<forall>d \<in> set external_input. \<forall>r \<in> set (references d). r \<notin> asm_name ` set external_input"
    by (simp add: external_input_def module_def)
  have "map references external_input = [[''External.Lib'']]"
    and "''External.Lib'' \<notin> asm_name ` set external_input"
    by (simp_all add: external_input_def module_def)
  with h no_dangling_reference_violation[of "analyzer_of external_input" external_input]
  show ?thesis by blast
qed

text \<open>
  Claim C6 as stated fails: for the single module \<open>A\<close> with the undeclared dependency
  \<open>External.Lib\<close> there is no cycle, but all four violation lists are empty; no
  violation identifies \<open>External.Lib\<close>.
\<close>

theorem external_reference_not_reported:
  "''External.Lib'' \<in> set (references (module ''A'' [''External.Lib''])) \<and>
   ''External.Lib'' \<notin> set (dict_keys (assemblies (analyzer_of [module ''A'' [''External.Lib'']]))) \<and>
   analyze_dependency_violations (analyzer_of [module ''A'' [''External.Lib'']])
     = \<lparr>editor_runtime_cycles = [], test_production_cycles = [],
        circular_core_dependencies = [], missing_dependencies = []\<rparr> \<and>
   find_cycles (load_assemblies [module ''A'' [''External.Lib'']]) = Inr [] \<and>
   detect_circular_dependencies (analyzer_of [module ''A'' [''External.Lib'']]) = Inr []"
  by (simp add: analyzer_of_def load_assembly_definitions_def analyzer_init_def module_def
      build_dependency_graph_def add_dependency_def defaultdict_add_def set_add_def dict_get_def
      dict_keys_def analyze_dependency_violations_def editor_check_def test_check_def
      is_editor_def is_test_def load_assemblies_def find_cycles_def dfs.simps
      detect_circular_dependencies_def detect_dfs.simps)

lemma test_production_cycles_editor_check [simp]:
  "test_production_cycles (editor_check a n info v) = test_production_cycles v"
proof -
  have "test_production_cycles (fold (\<lambda>dep v.
                if dep \<in> set (dict_keys (assemblies a)) \<and> \<not> is_editor dep then
                  (if n \<in> set (dict_get (dependency_graph a) dep [])
                   then v\<lparr>editor_runtime_cycles := editor_runtime_cycles v @ [n @ '' <-> '' @ dep]\<rparr>
                   else v)
                else v) deps v) = test_production_cycles v" for deps
    by (induction deps arbitrary: v) auto
  then show ?thesis by (simp add: editor_check_def)
qed

lemma test_production_cycles_test_check:
  "test_production_cycles (test_check a n info v)
     = test_production_cycles v @ map (\<lambda>dep. violation_text (n, dep)) (test_production_deps a n info)"
proof -
  have "test_production_cycles (fold (\<lambda>dep v.
                if dep \<in> set (dict_keys (assemblies a)) \<and> \<not> is_test dep then
                  (if n \<in> set (dict_get (dependency_graph a) dep [])
                   then v\<lparr>test_production_cycles := test_production_cycles v @ [n @ '' <-> '' @ dep]\<rparr>
                   else v)
                else v) deps v)
        = test_production_cycles v @ map (\<lambda>dep. violation_text (n, dep))
            (filter (\<lambda>dep. dep \<in> set (dict_keys (assemblies a)) \<and> \<not> is_test dep \<and>
                      n \<in> set (dict_get (dependency_graph a) dep [])) deps)" for deps
    by (induction deps arbitrary: v) (auto simp: violation_text_def)
  then show ?thesis by (simp add: test_check_def test_production_deps_def)
qed

lemma test_production_cycles_fold:
  "test_production_cycles (fold (\<lambda>(assembly_name, assembly_info) v.
             test_check a assembly_name assembly_info
               (editor_check a assembly_name assembly_info v)) xs v)
     = test_production_cycles v @ map violation_text (test_production_pairs a xs)"
proof (induction xs arbitrary: v)
  case Nil
  then show ?case by (simp add: test_production_pairs_def)
next
  case (Cons x xs)
  obtain n info where x: "x = (n, info)" by (cases x)
  show ?case
    by (simp add: x Cons.IH test_production_cycles_test_check test_production_pairs_def
        comp_def)
qed

lemma test_production_cycles_eq:
  "test_production_cycles (analyze_dependency_violations a)
     = map violation_text (test_production_pairs a (assemblies a))"
  by (simp add: analyze_dependency_violations_def test_production_cycles_fold)

lemma count_list_map_Pair:
  "count_list (map (Pair n) deps) (T, P) = (if n = T then count_list deps P else 0)"
  by (induction deps) auto

lemma count_pairs_other:
  "T \<notin> fst ` set xs \<Longrightarrow> count_list (test_production_pairs a xs) (T, P) = 0"
  by (induction xs) (auto simp: test_production_pairs_def count_list_map_Pair)

lemma count_pairs:
  "distinct (map fst xs) \<Longrightarrow> map_of xs T = Some info \<Longrightarrow>
     count_list (test_production_pairs a xs) (T, P) = count_list (test_production_deps a T info) P"
proof (induction xs)
  case Nil
  then show ?case by simp
next
  case (Cons x xs)
  obtain n i where x: "x = (n, i)" by (cases x)
  show ?case
  proof (cases "n = T")
    case True
    with Cons.prems x have "i = info" and "T \<notin> fst ` set xs" by auto
    then show ?thesis
      using count_pairs_other[of T xs a P] True x
      by (simp add: test_production_pairs_def count_list_map_Pair)
  next
    case False
    with Cons x show ?thesis
      by (simp add: test_production_pairs_def count_list_map_Pair)
  qed
qed

lemma count_list_filter: "count_list (filter Q xs) x = (if Q x then count_list xs x else 0)"
  by (induction xs) auto

lemma pairs_first_is_test: "(n, d) \<in> set (test_production_pairs a xs) \<Longrightarrow> is_test n \<and> \<not> is_test d"
  by (auto simp: test_production_pairs_def test_production_deps_def split: if_splits)

text \<open>
  Claim C5, as the code has it. Let \<open>T\<close> be a module that the code classifies as test
  code (its name contains \<^verbatim>\<open>.Testing\<close> or \<^verbatim>\<open>.Test\<close>) and \<open>P\<close> a module it does not,
  with \<open>T\<close> among the dependencies of \<open>P\<close>. Then the list \<^verbatim>\<open>test_production_cycles\<close> is
  the text of \<open>test_production_pairs\<close>, in which the pair \<open>(T, P)\<close> occurs once for every
  occurrence of \<open>P\<close> in the \<^verbatim>\<open>references\<close> of \<open>T\<close>, and \<open>(P, T)\<close> does not occur.
\<close>

theorem test_production_cycle_once_per_reference:
  assumes "distinct (dict_keys (assemblies a))"
    and "map_of (assemblies a) T = Some info"
    and "P \<in> set (dict_keys (assemblies a))"
    and "T \<in> set (dict_get (dependency_graph a) P [])"
    and "is_test T" and "\<not> is_test P"
  shows "test_production_cycles (analyze_dependency_violations a)
           = map violation_text (test_production_pairs a (assemblies a)) \<and>
         count_list (test_production_pairs a (assemblies a)) (T, P) = count_list (references info) P \<and>
         (P, T) \<notin> set (test_production_pairs a (assemblies a))"
proof (intro conjI)
  show "test_production_cycles (analyze_dependency_violations a)
           = map violation_text (test_production_pairs a (assemblies a))"
    by (rule test_production_cycles_eq)
next
  from assms(1) have "distinct (map fst (assemblies a))" by (simp add: dict_keys_def)
  from count_pairs[OF this assms(2)] assms(3-6)
  show "count_list (test_production_pairs a (assemblies a)) (T, P) = count_list (references info) P"
    by (simp add: test_production_deps_def count_list_filter)
next
  from assms(6) pairs_first_is_test[of P T a "assemblies a"]
  show "(P, T) \<notin> set (test_production_pairs a (assemblies a))" by blast
qed

lemma analyzer_test_cycle_input:
  "analyzer_of test_cycle_input =
     \<lparr>assemblies = [(''X.Test'', module ''X.Test'' [''Prod.Y'']), (''Prod.Y'', module ''Prod.Y'' [''X.Test''])],
      dependency_graph = [(''X.Test'', [''Prod.Y'']), (''Prod.Y'', [''X.Test''])],
      reverse_dependency_graph = [(''Prod.Y'', [''X.Test'']), (''X.Test'', [''Prod.Y''])]\<rparr>"
  by (simp add: analyzer_of_def load_assembly_definitions_def analyzer_init_def
      test_cycle_input_def module_def build_dependency_graph_def add_dependency_def
      defaultdict_add_def set_add_def dict_get_def)

theorem test_production_cycle_once_per_reference_witness:
  "is_test ''X.Test'' \<and> \<not> is_test ''Prod.Y'' \<and>
   count_list (references (module ''X.Test'' [''Prod.Y''])) ''Prod.Y'' = 1 \<and>
   test_production_cycles (analyze_dependency_violations (analyzer_of test_cycle_input))
     = [''X.Test <-> Prod.Y''] \<and>
   count_list (test_production_pairs (analyzer_of test_cycle_input)
                 (assemblies (analyzer_of test_cycle_input))) (''X.Test'', ''Prod.Y'') = 1 \<and>
   (''Prod.Y'', ''X.Test'') \<notin> set (test_production_pairs (analyzer_of test_cycle_input)
                 (assemblies (analyzer_of test_cycle_input)))"
proof -
  let ?a = "analyzer_of test_cycle_input"
  have t: "is_test ''X.Test''" and p: "\<not> is_test ''Prod.Y''"
    by (simp_all add: is_test_def)
  have d: "distinct (dict_keys (assemblies ?a))"
    and m: "map_of (assemblies ?a) ''X.Test'' = Some (module ''X.Test'' [''Prod.Y''])"
    and k: "''Prod.Y'' \<in> set (dict_keys (assemblies ?a))"
    and e: "''X.Test'' \<in> set (dict_get (dependency_graph ?a) ''Prod.Y'' [])"
    by (simp_all add: analyzer_test_cycle_input dict_keys_def dict_get_def module_def)
  have c: "count_list (references (module ''X.Test'' [''Prod.Y''])) ''Prod.Y'' = 1"
    by (simp add: module_def)
  have pairs: "test_production_pairs ?a (assemblies ?a) = [(''X.Test'', ''Prod.Y'')]"
    using t p by (simp add: analyzer_test_cycle_input test_production_pairs_def
        test_production_deps_def module_def dict_keys_def dict_get_def)
  from test_production_cycle_once_per_reference[OF d m k e t p] t p c pairs show ?thesis
    by (simp add: violation_text_def)
qed

lemma analyzer_duplicate_reference_input:
  "analyzer_of duplicate_reference_input =
     \<lparr>assemblies = [(''X.Test'', module ''X.Test'' [''Prod.Y'', ''Prod.Y'']),
                    (''Prod.Y'', module ''Prod.Y'' [''X.Test''])],
      dependency_graph = [(''X.Test'', [''Prod.Y'']), (''Prod.Y'', [''X.Test''])],
      reverse_dependency_graph = [(''Prod.Y'', [''X.Test'']), (''X.Test'', [''Prod.Y''])]\<rparr>"
  by (simp add: analyzer_of_def load_assembly_definitions_def analyzer_init_def
      duplicate_reference_input_def module_def build_dependency_graph_def add_dependency_def
      defaultdict_add_def set_add_def dict_get_def)

lemma analyzer_assembly_reference_input:
  "analyzer_of assembly_reference_input =
     \<lparr>assemblies = [(''X.Test'', \<lparr>asm_name = ''X.Test'', references = [],
                                   assembly_references = [''Prod.Y'']\<rparr>),
                    (''Prod.Y'', module ''Prod.Y'' [''X.Test''])],
      dependency_graph = [(''X.Test'', [''Prod.Y'']), (''Prod.Y'', [''X.Test''])],
      reverse_dependency_graph = [(''Prod.Y'', [''X.Test'']), (''X.Test'', [''Prod.Y''])]\<rparr>"
  by (simp add: analyzer_of_def load_assembly_definitions_def analyzer_init_def
      assembly_reference_input_def module_def build_dependency_graph_def add_dependency_def
      defaultdict_add_def set_add_def dict_get_def)

text \<open>
  Claim C5 as stated fails: with \<^verbatim>\<open>Prod.Y\<close> written twice in the \<^verbatim>\<open>references\<close> of
  \<^verbatim>\<open>X.Test\<close> the violation is listed twice, and with \<^verbatim>\<open>Prod.Y\<close> written only in its
  \<^verbatim>\<open>assemblyReferences\<close> it is not listed, although the graph has both edges in each
  case and \<open>detect_circular_dependencies\<close> reports the cycle.
\<close>

theorem test_production_cycle_not_exactly_one:
  "is_test ''X.Test'' \<and> \<not> is_test ''Prod.Y'' \<and>
   dependency_graph (analyzer_of duplicate_reference_input)
     = [(''X.Test'', [''Prod.Y'']), (''Prod.Y'', [''X.Test''])] \<and>
   detect_circular_dependencies (analyzer_of duplicate_reference_input)
     = Inr [[''X.Test'', ''Prod.Y'', ''X.Test'']] \<and>
   test_production_cycles (analyze_dependency_violations (analyzer_of duplicate_reference_input))
     = [''X.Test <-> Prod.Y'', ''X.Test <-> Prod.Y''] \<and>
   dependency_graph (analyzer_of assembly_reference_input)
     = [(''X.Test'', [''Prod.Y'']), (''Prod.Y'', [''X.Test''])] \<and>
   detect_circular_dependencies (analyzer_of assembly_reference_input)
     = Inr [[''X.Test'', ''Prod.Y'', ''X.Test'']] \<and>
   test_production_cycles (analyze_dependency_violations (analyzer_of assembly_reference_input))
     = []"
  by (simp add: analyzer_duplicate_reference_input analyzer_assembly_reference_input
      analyze_dependency_violations_def editor_check_def test_check_def is_editor_def is_test_def
      module_def dict_keys_def dict_get_def detect_circular_dependencies_def detect_dfs.simps)

text \<open>
  The classification is by substring of the name: the name \<^verbatim>\<open>Test.X\<close> itself contains
  neither \<^verbatim>\<open>.Testing\<close> nor \<^verbatim>\<open>.Test\<close>, so a module of that very name is not test code
  for \<^verbatim>\<open>analyze_dependency_violations\<close>.
\<close>

lemma literal_scenario_names_not_classified:
  "\<not> is_test ''Test.X'' \<and>
   test_production_cycles (analyze_dependency_violations
      (analyzer_of [module ''Test.X'' [''Prod.Y''], module ''Prod.Y'' [''Test.X'']])) = []"
  by (simp add: analyzer_of_def load_assembly_definitions_def analyzer_init_def module_def
      build_dependency_graph_def add_dependency_def defaultdict_add_def set_add_def dict_get_def
      dict_keys_def analyze_dependency_violations_def editor_check_def test_check_def
      is_editor_def is_test_def)

section \<open>Correctness of strongconnect\<close>

text \<open>
  The invariant of Tarjan's algorithm, for an edge relation \<open>E\<close> and the set \<open>A\<close> of the
  nodes whose call of \<^verbatim>\<open>strongconnect\<close> is in progress. \<open>ix\<close> and \<open>ll\<close> read
  \<^verbatim>\<open>index\<close> and \<^verbatim>\<open>lowlinks\<close>; \<open>popped\<close> are the nodes that have an index and have left
  the stack.
  \<^item> \<open>wf_state\<close>: the stack has no duplicates and is ordered by index, \<^verbatim>\<open>on_stack\<close>
    says what is on it, \<^verbatim>\<open>index\<close> and \<^verbatim>\<open>lowlinks\<close> have the same keys, every index is
    below \<^verbatim>\<open>index_counter[0]\<close>, and a lowlink is at most the index.
  \<^item> \<open>wf_components\<close>: the components are disjoint lists of popped nodes, each with at
    least two members.
  \<^item> \<open>fin_inv\<close>: a node on the stack whose call has returned has all its successors
    indexed, and its lowlink is at most the index of each successor on the stack.
  \<^item> \<open>closed_inv\<close>: no edge leaves the popped nodes, and two different popped nodes
    that reach each other are together in a component.
  \<^item> \<open>reach_inv\<close>: a node on the stack reaches a node on the stack whose index is its
    lowlink; the lowlink of a node whose call has returned is below its index; a node of
    the stack reaches every node above it.
  \<^item> \<open>sound_inv\<close>: all members of a component reach each other.
\<close>

definition ix :: "tarjan_state \<Rightarrow> name \<Rightarrow> nat" where
  "ix s x = the (index s x)"

definition ll :: "tarjan_state \<Rightarrow> name \<Rightarrow> nat" where
  "ll s x = the (lowlinks s x)"

definition popped :: "tarjan_state \<Rightarrow> name set" where
  "popped s = dom (index s) - set (stack s)"

definition wf_state :: "tarjan_state \<Rightarrow> bool" where
  "wf_state s \<longleftrightarrow>
     distinct (stack s) \<and> set (stack s) \<subseteq> dom (index s) \<and> dom (lowlinks s) = dom (index s) \<and>
     (\<forall>n. is_on_stack s n = (n \<in> set (stack s))) \<and>
     (\<forall>n \<in> dom (index s). ix s n < index_counter s) \<and>
     sorted_wrt (\<lambda>x y. ix s y < ix s x) (stack s) \<and>
     (\<forall>x \<in> set (stack s). ll s x \<le> ix s x)"

definition wf_components :: "tarjan_state \<Rightarrow> bool" where
  "wf_components s \<longleftrightarrow>
     distinct (concat (components s)) \<and> set (concat (components s)) \<subseteq> popped s \<and>
     (\<forall>c \<in> set (components s). 2 \<le> length c)"

definition fin_inv :: "(name \<times> name) set \<Rightarrow> name set \<Rightarrow> tarjan_state \<Rightarrow> bool" where
  "fin_inv E A s \<longleftrightarrow>
     A \<subseteq> set (stack s) \<and>
     (\<forall>x \<in> set (stack s) - A. \<forall>y. (x, y) \<in> E \<longrightarrow>
        y \<in> dom (index s) \<and> (y \<in> set (stack s) \<longrightarrow> ll s x \<le> ix s y))"

definition closed_inv :: "(name \<times> name) set \<Rightarrow> tarjan_state \<Rightarrow> bool" where
  "closed_inv E s \<longleftrightarrow>
     (\<forall>x \<in> popped s. \<forall>y. (x, y) \<in> E \<longrightarrow> y \<in> popped s) \<and>
     (\<forall>x \<in> popped s. \<forall>y \<in> popped s. x \<noteq> y \<and> (x, y) \<in> E\<^sup>* \<and> (y, x) \<in> E\<^sup>* \<longrightarrow>
        (\<exists>c \<in> set (components s). x \<in> set c \<and> y \<in> set c))"

definition reach_inv :: "(name \<times> name) set \<Rightarrow> name set \<Rightarrow> tarjan_state \<Rightarrow> bool" where
  "reach_inv E A s \<longleftrightarrow>
     (\<forall>x \<in> set (stack s). \<exists>u \<in> set (stack s). ix s u = ll s x \<and> (x, u) \<in> E\<^sup>*) \<and>
     (\<forall>x \<in> set (stack s) - A. ll s x < ix s x) \<and>
     (\<forall>x \<in> set (stack s). \<forall>y \<in> set (stack s). ix s x \<le> ix s y \<longrightarrow> (x, y) \<in> E\<^sup>*)"

definition sound_inv :: "(name \<times> name) set \<Rightarrow> tarjan_state \<Rightarrow> bool" where
  "sound_inv E s \<longleftrightarrow> (\<forall>c \<in> set (components s). \<forall>x \<in> set c. \<forall>y \<in> set c. (x, y) \<in> E\<^sup>*)"

definition tinv :: "(name \<times> name) set \<Rightarrow> name set \<Rightarrow> tarjan_state \<Rightarrow> bool" where
  "tinv E A s \<longleftrightarrow> wf_state s \<and> wf_components s \<and> fin_inv E A s \<and> closed_inv E s \<and>
     reach_inv E A s \<and> sound_inv E s"

text \<open>Entering a node: the first five assignments of \<^verbatim>\<open>strongconnect\<close>.\<close>

lemma enter_fields [simp]:
  "stack (enter node s) = node # stack s"
  "lowlinks (enter node s) = (lowlinks s)(node \<mapsto> index_counter s)"
  "index_counter (enter node s) = Suc (index_counter s)"
  "on_stack (enter node s) = (on_stack s)(node \<mapsto> True)"
  "components (enter node s) = components s"
  by (simp_all add: enter_def)

lemma ix_enter: "ix (enter node s) n = (if n = node then index_counter s else ix s n)"
  by (simp add: ix_def)

lemma ll_enter: "ll (enter node s) n = (if n = node then index_counter s else ll s n)"
  by (simp add: ll_def)

lemma popped_enter: "index s node = None \<Longrightarrow> wf_state s \<Longrightarrow> popped (enter node s) = popped s"
  by (auto simp: popped_def wf_state_def)

lemma wf_state_enter:
  assumes "wf_state s" "index s node = None"
  shows "wf_state (enter node s)"
proof -
  from assms have nn: "node \<notin> set (stack s)" by (auto simp: wf_state_def)
  have srt: "sorted_wrt (\<lambda>x y. ix (enter node s) y < ix (enter node s) x) (stack s)"
  proof -
    have "sorted_wrt (\<lambda>x y. ix s y < ix s x) (stack s)" using assms by (simp add: wf_state_def)
    then show ?thesis
      by (rule sorted_wrt_mono_rel[rotated]) (use nn in \<open>auto simp: ix_enter\<close>)
  qed
  from assms nn srt show ?thesis
    unfolding wf_state_def
    by (auto simp: ix_enter ll_enter is_on_stack_def less_Suc_eq dest: bspec subsetD)
qed

lemma wf_components_enter:
  "wf_state s \<Longrightarrow> wf_components s \<Longrightarrow> index s node = None \<Longrightarrow> wf_components (enter node s)"
  by (simp add: wf_components_def popped_enter)

lemma fin_inv_enter:
  assumes "wf_state s" "fin_inv E A s" "index s node = None"
  shows "fin_inv E (insert node A) (enter node s)"
proof -
  from assms have nn: "node \<notin> set (stack s)" by (auto simp: wf_state_def)
  have "y \<in> dom (index (enter node s)) \<and>
        (y \<in> set (stack (enter node s)) \<longrightarrow> ll (enter node s) x \<le> ix (enter node s) y)"
    if "x \<in> set (stack (enter node s)) - insert node A" "(x, y) \<in> E" for x y
  proof -
    from that have x: "x \<in> set (stack s) - A" "x \<noteq> node" by auto
    with assms(2) that(2) have y: "y \<in> dom (index s)" "y \<in> set (stack s) \<longrightarrow> ll s x \<le> ix s y"
      by (auto simp: fin_inv_def)
    with assms(3) have "y \<noteq> node" by auto
    with x y show ?thesis by (auto simp: ix_enter ll_enter)
  qed
  moreover from assms(2) have "insert node A \<subseteq> set (stack (enter node s))"
    by (auto simp: fin_inv_def)
  ultimately show ?thesis unfolding fin_inv_def by blast
qed

lemma closed_inv_enter:
  "wf_state s \<Longrightarrow> closed_inv E s \<Longrightarrow> index s node = None \<Longrightarrow> closed_inv E (enter node s)"
  by (simp add: closed_inv_def popped_enter)

lemma reach_inv_enter:
  assumes w: "wf_state s" and r: "reach_inv E A s" and new: "index s node = None"
    and to: "\<forall>x \<in> set (stack s). (x, node) \<in> E\<^sup>*"
  shows "reach_inv E (insert node A) (enter node s)"
proof -
  let ?s' = "enter node s"
  from w new have nn: "node \<notin> set (stack s)" by (auto simp: wf_state_def)
  have same: "ix ?s' x = ix s x \<and> ll ?s' x = ll s x" if "x \<in> set (stack s)" for x
    using that nn by (auto simp: ix_enter ll_enter)
  from w have bound: "ix s x < index_counter s" if "x \<in> set (stack s)" for x
    using that by (auto simp: wf_state_def)
  have a: "\<exists>u \<in> set (stack ?s'). ix ?s' u = ll ?s' x \<and> (x, u) \<in> E\<^sup>*"
    if "x \<in> set (stack ?s')" for x
  proof (cases "x = node")
    case True
    then have "ix ?s' node = ll ?s' x \<and> (x, node) \<in> E\<^sup>*" by (simp add: ix_enter ll_enter)
    then show ?thesis by auto
  next
    case False
    with that have xs: "x \<in> set (stack s)" by simp
    with r obtain u where u: "u \<in> set (stack s)" "ix s u = ll s x" "(x, u) \<in> E\<^sup>*"
      by (auto simp: reach_inv_def)
    with same[OF xs] same[of u] have "ix ?s' u = ll ?s' x \<and> (x, u) \<in> E\<^sup>*" by simp
    with u(1) show ?thesis by auto
  qed
  have b: "ll ?s' x < ix ?s' x" if "x \<in> set (stack ?s') - insert node A" for x
  proof -
    from that have "x \<in> set (stack s) - A" by auto
    with r same[of x] show ?thesis by (auto simp: reach_inv_def)
  qed
  have c: "(x, y) \<in> E\<^sup>*"
    if "x \<in> set (stack ?s')" "y \<in> set (stack ?s')" "ix ?s' x \<le> ix ?s' y" for x y
  proof (cases "y = node")
    case True
    with that(1) to show ?thesis by auto
  next
    case yn: False
    with that(2) have ys: "y \<in> set (stack s)" by simp
    show ?thesis
    proof (cases "x = node")
      case True
      with that(3) same[OF ys] bound[OF ys] show ?thesis by (simp add: ix_enter)
    next
      case False
      with that(1) have xs: "x \<in> set (stack s)" by simp
      with ys that(3) same[OF xs] same[OF ys] r show ?thesis by (auto simp: reach_inv_def)
    qed
  qed
  from a b c show ?thesis unfolding reach_inv_def by blast
qed

lemma sound_inv_enter: "sound_inv E s \<Longrightarrow> sound_inv E (enter node s)"
  by (simp add: sound_inv_def)

lemma tinv_enter:
  "tinv E A s \<Longrightarrow> index s node = None \<Longrightarrow> \<forall>x \<in> set (stack s). (x, node) \<in> E\<^sup>* \<Longrightarrow>
     tinv E (insert node A) (enter node s)"
  by (simp add: tinv_def wf_state_enter wf_components_enter fin_inv_enter closed_inv_enter
      reach_inv_enter sound_inv_enter)

text \<open>Lowering the lowlink of a node whose call is in progress.\<close>

definition set_lowlink :: "name \<Rightarrow> nat \<Rightarrow> tarjan_state \<Rightarrow> tarjan_state" where
  "set_lowlink node v s = s\<lparr>lowlinks := (lowlinks s)(node \<mapsto> v)\<rparr>"

lemma set_lowlink_fields [simp]:
  "stack (set_lowlink node v s) = stack s"
  "index (set_lowlink node v s) = index s"
  "index_counter (set_lowlink node v s) = index_counter s"
  "on_stack (set_lowlink node v s) = on_stack s"
  "components (set_lowlink node v s) = components s"
  "lowlinks (set_lowlink node v s) = (lowlinks s)(node \<mapsto> v)"
  by (simp_all add: set_lowlink_def)

lemma ix_set_lowlink [simp]: "ix (set_lowlink node v s) = ix s"
  by (simp add: ix_def fun_eq_iff)

lemma ll_set_lowlink: "ll (set_lowlink node v s) n = (if n = node then v else ll s n)"
  by (simp add: ll_def)

lemma popped_set_lowlink [simp]: "popped (set_lowlink node v s) = popped s"
  by (simp add: popped_def)

lemma is_on_stack_set_lowlink [simp]: "is_on_stack (set_lowlink node v s) = is_on_stack s"
  by (simp add: is_on_stack_def fun_eq_iff)

lemma tinv_set_lowlink:
  assumes "tinv E A s" "node \<in> A" "v \<le> ll s node"
    and via: "\<exists>u \<in> set (stack s). ix s u = v \<and> (node, u) \<in> E\<^sup>*"
  shows "tinv E A (set_lowlink node v s)"
proof -
  from assms have ns: "node \<in> set (stack s)" by (auto simp: tinv_def fin_inv_def)
  from assms have w: "wf_state s" by (simp add: tinv_def)
  with ns have nd: "node \<in> dom (lowlinks s)" by (auto simp: wf_state_def)
  from w ns assms(3) have "v \<le> ix s node" by (auto simp: wf_state_def dest!: bspec[where x = node])
  with w nd have "wf_state (set_lowlink node v s)"
    unfolding wf_state_def by (auto simp: ll_set_lowlink)
  moreover from assms have "wf_components (set_lowlink node v s)"
    by (simp add: tinv_def wf_components_def)
  moreover from assms have "fin_inv E A (set_lowlink node v s)"
    unfolding tinv_def fin_inv_def by (auto simp: ll_set_lowlink)
  moreover from assms have "closed_inv E (set_lowlink node v s)"
    by (simp add: tinv_def closed_inv_def)
  moreover have "reach_inv E A (set_lowlink node v s)"
  proof -
    from assms(1) have r: "reach_inv E A s" by (simp add: tinv_def)
    have "\<exists>u \<in> set (stack s). ix s u = ll (set_lowlink node v s) x \<and> (x, u) \<in> E\<^sup>*"
      if "x \<in> set (stack s)" for x
    proof (cases "x = node")
      case True
      with via show ?thesis by (simp add: ll_set_lowlink)
    next
      case False
      with r that show ?thesis by (simp add: ll_set_lowlink reach_inv_def)
    qed
    moreover have "ll (set_lowlink node v s) x < ix s x" if "x \<in> set (stack s) - A" for x
    proof -
      from that assms(2) have "x \<noteq> node" by auto
      with r that show ?thesis by (simp add: ll_set_lowlink reach_inv_def)
    qed
    moreover from r have "\<forall>x \<in> set (stack s). \<forall>y \<in> set (stack s). ix s x \<le> ix s y \<longrightarrow> (x, y) \<in> E\<^sup>*"
      by (simp add: reach_inv_def)
    ultimately show ?thesis unfolding reach_inv_def by simp
  qed
  moreover from assms have "sound_inv E (set_lowlink node v s)"
    by (simp add: tinv_def sound_inv_def)
  ultimately show ?thesis by (simp add: tinv_def)
qed

text \<open>A node whose successors have all been looked at leaves the set of calls in progress.\<close>

definition processed :: "(name \<times> name) set \<Rightarrow> name \<Rightarrow> tarjan_state \<Rightarrow> bool" where
  "processed E node s \<longleftrightarrow>
     (\<forall>y. (node, y) \<in> E \<longrightarrow> y \<in> dom (index s) \<and> (y \<in> set (stack s) \<longrightarrow> ll s node \<le> ix s y))"

lemma tinv_finish:
  assumes "tinv E (insert node A) s" "processed E node s" "ll s node < ix s node"
  shows "tinv E A s"
proof -
  from assms(1,2) have "fin_inv E A s"
    unfolding tinv_def fin_inv_def processed_def by auto
  moreover from assms(1,3) have "reach_inv E A s"
    unfolding tinv_def reach_inv_def by auto
  ultimately show ?thesis using assms(1) by (simp add: tinv_def)
qed

text \<open>Popping a component: the \<^verbatim>\<open>while True\<close> loop of a root node.\<close>

definition clear_on_stack :: "name list \<Rightarrow> (name \<rightharpoonup> bool) \<Rightarrow> (name \<rightharpoonup> bool)" where
  "clear_on_stack ws ons = fold (\<lambda>w m. m(w \<mapsto> False)) ws ons"

definition pop_state :: "name list \<Rightarrow> name list \<Rightarrow> tarjan_state \<Rightarrow> tarjan_state" where
  "pop_state component stk s =
     s\<lparr>stack := stk, on_stack := clear_on_stack component (on_stack s),
       components := (if length component > 1 then components s @ [component] else components s)\<rparr>"

lemma clear_on_stack_apply:
  "clear_on_stack ws ons n = (if n \<in> set ws then Some False else ons n)"
  unfolding clear_on_stack_def by (induction ws arbitrary: ons) auto

lemma pop_component_append:
  "node \<notin> set mid \<Longrightarrow>
     pop_component node (mid @ node # stk) ons acc
       = Inr (stk, clear_on_stack (mid @ [node]) ons, acc @ mid @ [node])"
  unfolding clear_on_stack_def by (induction mid arbitrary: ons acc) auto

lemma emit_component_pop:
  assumes "stack s = mid @ node # stk" "node \<notin> set mid"
    "lowlinks s node = Some l" "index s node = Some l"
  shows "emit_component node s = Inr (pop_state (mid @ [node]) stk s)"
  using assms by (simp add: emit_component_def pop_component_append pop_state_def)

lemma emit_component_keep:
  assumes "lowlinks s node = Some l" "index s node = Some i" "l \<noteq> i"
  shows "emit_component node s = Inr s"
  using assms by (simp add: emit_component_def)

lemma pop_state_fields [simp]:
  "stack (pop_state c stk s) = stk"
  "index (pop_state c stk s) = index s"
  "lowlinks (pop_state c stk s) = lowlinks s"
  "index_counter (pop_state c stk s) = index_counter s"
  by (simp_all add: pop_state_def)

lemma ix_pop_state [simp]: "ix (pop_state c stk s) = ix s"
  by (simp add: ix_def fun_eq_iff)

lemma ll_pop_state [simp]: "ll (pop_state c stk s) = ll s"
  by (simp add: ll_def fun_eq_iff)

lemma is_on_stack_pop_state:
  "is_on_stack (pop_state c stk s) n = (n \<notin> set c \<and> is_on_stack s n)"
  by (simp add: is_on_stack_def pop_state_def clear_on_stack_apply)

lemma closed_rtrancl:
  assumes "\<forall>x \<in> P. \<forall>y. (x, y) \<in> E \<longrightarrow> y \<in> P" "(x, y) \<in> E\<^sup>*" "x \<in> P"
  shows "y \<in> P"
  using assms(2,3,1) by (induction rule: rtrancl_induct) auto

lemma stack_reaches_active:
  assumes w: "wf_state s" and r: "reach_inv E (insert node A) s"
    and st: "stack s = mid @ node # stk" and midA: "set mid \<inter> A = {}"
    and x: "x \<in> set (stack s)"
  shows "(x, node) \<in> E\<^sup>*"
  using x
proof (induction "ix s x" arbitrary: x rule: less_induct)
  case less
  from w st have srt: "sorted_wrt (\<lambda>x y. ix s y < ix s x) (mid @ node # stk)"
    and dist: "distinct (mid @ node # stk)"
    by (simp_all add: wf_state_def)
  from r have rc: "\<And>a b. a \<in> set (stack s) \<Longrightarrow> b \<in> set (stack s) \<Longrightarrow> ix s a \<le> ix s b \<Longrightarrow> (a, b) \<in> E\<^sup>*"
    by (simp add: reach_inv_def)
  have lower: "(y, node) \<in> E\<^sup>*" if "y \<in> set (node # stk)" for y
  proof -
    from that srt have "ix s y \<le> ix s node" by (auto simp: sorted_wrt_append)
    with that st show ?thesis by (intro rc) auto
  qed
  show ?case
  proof (cases "x \<in> set mid")
    case False
    with less.prems st show ?thesis by (intro lower) auto
  next
    case True
    with dist midA have "x \<in> set (stack s) - insert node A" using st by auto
    with r less.prems obtain u where u: "u \<in> set (stack s)" "ix s u = ll s x" "(x, u) \<in> E\<^sup>*"
      and lt: "ll s x < ix s x"
      unfolding reach_inv_def by blast
    have "(u, node) \<in> E\<^sup>*"
    proof (cases "u \<in> set mid")
      case True
      from u(2) lt have "ix s u < ix s x" by simp
      from less.hyps[OF this u(1)] show ?thesis .
    next
      case False
      with u(1) st show ?thesis by (intro lower) auto
    qed
    with u(3) show ?thesis by (rule rtrancl_trans)
  qed
qed

lemma tinv_pop:
  assumes inv: "tinv E (insert node A) s"
    and st: "stack s = mid @ node # stk"
    and midA: "set mid \<inter> A = {}" and nA: "node \<notin> A"
    and root: "ll s node = ix s node"
    and low: "\<forall>x \<in> set mid. ll s node \<le> ll s x"
    and proc: "processed E node s"
  shows "tinv E A (pop_state (mid @ [node]) stk s)"
proof -
  let ?K = "mid @ [node]"
  let ?s' = "pop_state ?K stk s"
  from inv have w: "wf_state s" and wc: "wf_components s" and fin: "fin_inv E (insert node A) s"
    and cl: "closed_inv E s" and re: "reach_inv E (insert node A) s" and so: "sound_inv E s"
    by (simp_all add: tinv_def)
  from w st have dist: "distinct (mid @ node # stk)" by (simp add: wf_state_def)
  then have nmid: "node \<notin> set mid" and nstk: "node \<notin> set stk" and ms: "set mid \<inter> set stk = {}"
    and dmid: "distinct mid" and dstk: "distinct stk"
    by auto
  from w st have sub: "set mid \<union> {node} \<union> set stk \<subseteq> dom (index s)" by (auto simp: wf_state_def)
  from w st have srt: "sorted_wrt (\<lambda>x y. ix s y < ix s x) (mid @ node # stk)"
    by (simp add: wf_state_def)
  then have below: "\<forall>y \<in> set stk. ix s y < ix s node"
    by (auto simp: sorted_wrt_append)
  have pop: "popped ?s' = popped s \<union> set ?K"
    using st sub dist by (auto simp: popped_def)
  have Kstack: "set ?K \<subseteq> set (stack s)" using st by auto
  have Kpop: "set ?K \<inter> popped s = {}" using st by (auto simp: popped_def)

  have w': "wf_state ?s'"
  proof -
    have "is_on_stack ?s' n = (n \<in> set stk)" for n
      using w st dist by (auto simp: is_on_stack_pop_state wf_state_def)
    moreover from srt have "sorted_wrt (\<lambda>x y. ix s y < ix s x) stk"
      by (simp add: sorted_wrt_append)
    ultimately show ?thesis using w st dstk sub
      unfolding wf_state_def by auto
  qed

  have wc': "wf_components ?s'"
  proof (cases "length ?K > 1")
    case False
    with wc pop show ?thesis by (auto simp: wf_components_def pop_state_def)
  next
    case True
    from wc have old: "set (concat (components s)) \<subseteq> popped s" "distinct (concat (components s))"
      "\<forall>c \<in> set (components s). 2 \<le> length c"
      by (simp_all add: wf_components_def)
    from old(1) Kpop have "set (concat (components s)) \<inter> set ?K = {}" by blast
    moreover from True have "2 \<le> length ?K" by (cases mid) auto
    ultimately show ?thesis using old dmid nmid True pop
      by (auto simp: wf_components_def pop_state_def simp del: length_append)
  qed

  have fin': "fin_inv E A ?s'"
  proof -
    from fin st midA nA have a: "A \<subseteq> set stk" by (auto simp: fin_inv_def)
    have b: "y \<in> dom (index s) \<and> (y \<in> set stk \<longrightarrow> ll s x \<le> ix s y)"
      if "x \<in> set stk" "x \<notin> A" "(x, y) \<in> E" for x y
    proof -
      from that(1,2) st nstk have "x \<in> set (stack s) - insert node A" by auto
      with fin that(3) have "y \<in> dom (index s)" "y \<in> set (stack s) \<longrightarrow> ll s x \<le> ix s y"
        by (auto simp: fin_inv_def)
      with st show ?thesis by auto
    qed
    show ?thesis
      unfolding fin_inv_def
    proof (intro conjI ballI allI impI)
      show "A \<subseteq> set (stack ?s')" using a by simp
    next
      fix x y assume "x \<in> set (stack ?s') - A" "(x, y) \<in> E"
      with b[of x y] show "y \<in> dom (index ?s')" by simp
    next
      fix x y assume "x \<in> set (stack ?s') - A" "(x, y) \<in> E" "y \<in> set (stack ?s')"
      with b[of x y] show "ll ?s' x \<le> ix ?s' y" by simp
    qed
  qed

  have succK: "y \<in> popped s \<union> set ?K" if "x \<in> set ?K" "(x, y) \<in> E" for x y
  proof -
    have y: "y \<in> dom (index s) \<and> (y \<in> set (stack s) \<longrightarrow> ll s x \<le> ix s y)"
    proof (cases "x = node")
      case True
      with proc that(2) show ?thesis by (simp add: processed_def)
    next
      case False
      with that(1) midA nmid st have "x \<in> set (stack s) - insert node A" by auto
      with fin that(2) show ?thesis by (auto simp: fin_inv_def)
    qed
    have lx: "ll s node \<le> ll s x" using that(1) low by auto
    show ?thesis
    proof (cases "y \<in> set stk")
      case True
      with y st have "ll s x \<le> ix s y" by simp
      moreover from True below have "ix s y < ix s node" by simp
      ultimately show ?thesis using lx root by simp
    next
      case False
      with y st show ?thesis by (auto simp: popped_def)
    qed
  qed

  have cl': "closed_inv E ?s'"
  proof -
    from cl have c1: "\<forall>x \<in> popped s. \<forall>y. (x, y) \<in> E \<longrightarrow> y \<in> popped s"
      and c2: "\<forall>x \<in> popped s. \<forall>y \<in> popped s. x \<noteq> y \<and> (x, y) \<in> E\<^sup>* \<and> (y, x) \<in> E\<^sup>* \<longrightarrow>
        (\<exists>c \<in> set (components s). x \<in> set c \<and> y \<in> set c)"
      by (simp_all add: closed_inv_def)
    have j1: "\<forall>x \<in> popped ?s'. \<forall>y. (x, y) \<in> E \<longrightarrow> y \<in> popped ?s'"
    proof (intro ballI allI impI)
      fix x y assume x: "x \<in> popped ?s'" and e: "(x, y) \<in> E"
      from x have "x \<in> popped s \<or> x \<in> set ?K" unfolding pop by auto
      then have "y \<in> popped s \<or> y \<in> set ?K"
      proof
        assume "x \<in> popped s"
        with c1 e show ?thesis by blast
      next
        assume "x \<in> set ?K"
        from succK[OF this e] show ?thesis by auto
      qed
      then show "y \<in> popped ?s'" unfolding pop by auto
    qed
    have comps: "set (components s) \<subseteq> set (components ?s')" by (auto simp: pop_state_def)
    have j2: "\<exists>c \<in> set (components ?s'). x \<in> set c \<and> y \<in> set c"
      if "x \<in> popped ?s'" "y \<in> popped ?s'" "x \<noteq> y" "(x, y) \<in> E\<^sup>*" "(y, x) \<in> E\<^sup>*" for x y
    proof -
      from that(1,2) have "x \<in> popped s \<or> x \<in> set ?K" "y \<in> popped s \<or> y \<in> set ?K"
        unfolding pop by auto
      then consider "x \<in> popped s" "y \<in> popped s" | "x \<in> popped s" "y \<in> set ?K"
        | "x \<in> set ?K" "y \<in> popped s" | "x \<in> set ?K" "y \<in> set ?K"
        by blast
      then show ?thesis
      proof cases
        case 1
        with c2 that comps show ?thesis by blast
      next
        case 2
        from closed_rtrancl[OF c1 that(4) 2(1)] 2(2) Kpop show ?thesis by blast
      next
        case 3
        from closed_rtrancl[OF c1 that(5) 3(2)] 3(1) Kpop show ?thesis by blast
      next
        case 4
        with that(3) dmid nmid have "length ?K > 1"
          by (cases mid) auto
        then have "?K \<in> set (components ?s')" by (simp add: pop_state_def)
        with 4 show ?thesis by blast
      qed
    qed
    from j1 j2 show ?thesis unfolding closed_inv_def by (intro conjI) blast+
  qed
  from srt have above: "\<forall>k \<in> set ?K. \<forall>y \<in> set stk. ix s y < ix s k"
    by (auto simp: sorted_wrt_append)
  from srt have upper: "\<forall>k \<in> set ?K. ix s node \<le> ix s k"
    by (auto simp: sorted_wrt_append intro: less_imp_le)

  have re': "reach_inv E A ?s'"
  proof -
    have a: "\<exists>u \<in> set stk. ix s u = ll s x \<and> (x, u) \<in> E\<^sup>*" if "x \<in> set stk" for x
    proof -
      from that st have xs: "x \<in> set (stack s)" by simp
      with re obtain u where u: "u \<in> set (stack s)" "ix s u = ll s x" "(x, u) \<in> E\<^sup>*"
        unfolding reach_inv_def by blast
      from w xs have "ll s x \<le> ix s x" by (simp add: wf_state_def)
      with u(2) have le: "ix s u \<le> ix s x" by simp
      have "u \<notin> set ?K"
      proof
        assume "u \<in> set ?K"
        with above that have "ix s x < ix s u" by blast
        with le show False by simp
      qed
      with u(1) st have "u \<in> set stk" by auto
      with u show ?thesis by blast
    qed
    have b: "ll s x < ix s x" if "x \<in> set stk" "x \<notin> A" for x
    proof -
      from that st nstk have "x \<in> set (stack s) - insert node A" by auto
      with re show ?thesis unfolding reach_inv_def by blast
    qed
    have c: "(x, y) \<in> E\<^sup>*" if "x \<in> set stk" "y \<in> set stk" "ix s x \<le> ix s y" for x y
    proof -
      from that st have "x \<in> set (stack s)" "y \<in> set (stack s)" by simp_all
      with re that(3) show ?thesis unfolding reach_inv_def by blast
    qed
    show ?thesis
      unfolding reach_inv_def
    proof (intro conjI ballI impI)
      fix x assume "x \<in> set (stack ?s')"
      with a[of x] show "\<exists>u \<in> set (stack ?s'). ix ?s' u = ll ?s' x \<and> (x, u) \<in> E\<^sup>*" by simp
    next
      fix x assume "x \<in> set (stack ?s') - A"
      with b[of x] show "ll ?s' x < ix ?s' x" by simp
    next
      fix x y assume "x \<in> set (stack ?s')" "y \<in> set (stack ?s')" "ix ?s' x \<le> ix ?s' y"
      with c[of x y] show "(x, y) \<in> E\<^sup>*" by simp
    qed
  qed

  have so': "sound_inv E ?s'"
  proof -
    have "(x, y) \<in> E\<^sup>*" if "x \<in> set ?K" "y \<in> set ?K" for x y
    proof -
      from that Kstack have xs: "x \<in> set (stack s)" and ys: "y \<in> set (stack s)" by auto
      from w re st midA xs have "(x, node) \<in> E\<^sup>*" by (rule stack_reaches_active)
      moreover have "(node, y) \<in> E\<^sup>*"
      proof -
        from upper that(2) have "ix s node \<le> ix s y" by blast
        moreover from st have "node \<in> set (stack s)" by simp
        ultimately show ?thesis using re ys unfolding reach_inv_def by blast
      qed
      ultimately show ?thesis by (rule rtrancl_trans)
    qed
    with so show ?thesis
      unfolding sound_inv_def pop_state_def by auto
  qed
  from w' wc' fin' cl' re' so' show ?thesis by (simp add: tinv_def)
qed

definition sc_frame :: "tarjan_state \<Rightarrow> tarjan_state \<Rightarrow> bool" where
  "sc_frame s s' \<longleftrightarrow>
     (\<forall>n \<in> dom (index s). index s' n = index s n \<and> lowlinks s' n = lowlinks s n) \<and>
     set (components s) \<subseteq> set (components s')"

definition loop_frame :: "name \<Rightarrow> tarjan_state \<Rightarrow> tarjan_state \<Rightarrow> bool" where
  "loop_frame node s s' \<longleftrightarrow>
     (\<forall>n \<in> dom (index s). index s' n = index s n \<and> (n \<noteq> node \<longrightarrow> lowlinks s' n = lowlinks s n)) \<and>
     ll s' node \<le> ll s node \<and>
     set (components s) \<subseteq> set (components s') \<and>
     set (stack s') \<inter> dom (index s) \<subseteq> set (stack s)"

definition sc_post ::
  "(name \<times> name) set \<Rightarrow> name set \<Rightarrow> name \<Rightarrow> tarjan_state \<Rightarrow> tarjan_state \<Rightarrow> bool" where
  "sc_post E A node s s' \<longleftrightarrow>
     tinv E A s' \<and> sc_frame s s' \<and> index s' node = Some (index_counter s) \<and>
     (\<exists>pre. stack s' = pre @ stack s \<and> set pre \<inter> dom (index s) = {} \<and>
        (pre = [] \<longrightarrow> ll s' node = ix s' node) \<and>
        (pre \<noteq> [] \<longrightarrow> last pre = node \<and> (\<forall>x \<in> set pre. ll s' node \<le> ll s' x)))"

definition loop_pre ::
  "(name \<times> name) set \<Rightarrow> name set \<Rightarrow> name \<Rightarrow> name list \<Rightarrow> tarjan_state \<Rightarrow> bool" where
  "loop_pre E A node stk s \<longleftrightarrow>
     tinv E (insert node A) s \<and> node \<notin> A \<and>
     (\<exists>mid. stack s = mid @ node # stk \<and> set mid \<inter> A = {} \<and>
        (\<forall>x \<in> set mid. ll s node \<le> ll s x))"

definition seen_ok :: "name \<Rightarrow> name \<Rightarrow> tarjan_state \<Rightarrow> bool" where
  "seen_ok node y s \<longleftrightarrow> y \<in> dom (index s) \<and> (y \<in> set (stack s) \<longrightarrow> ll s node \<le> ix s y)"

lemma ix_eq: "index s' n = index s n \<Longrightarrow> ix s' n = ix s n"
  by (simp add: ix_def)

lemma ll_eq: "lowlinks s' n = lowlinks s n \<Longrightarrow> ll s' n = ll s n"
  by (simp add: ll_def)

lemma loop_frame_refl: "loop_frame node s s"
  by (simp add: loop_frame_def)

lemma loop_frame_trans:
  assumes "loop_frame node s s1" "loop_frame node s1 s2"
  shows "loop_frame node s s2"
proof -
  from assms(1) have d: "dom (index s) \<subseteq> dom (index s1)"
    by (force simp: loop_frame_def dom_def)
  with assms show ?thesis
    unfolding loop_frame_def by (auto dest!: subsetD[OF d] simp: subset_iff) 
qed

lemma seen_ok_frame:
  assumes "seen_ok node y s" "loop_frame node s s'"
  shows "seen_ok node y s'"
proof -
  from assms have y: "y \<in> dom (index s)" and i: "index s' y = index s y"
    by (auto simp: seen_ok_def loop_frame_def)
  then have "y \<in> dom (index s')" by (auto simp: dom_def)
  moreover have "ll s' node \<le> ix s' y" if "y \<in> set (stack s')"
  proof -
    from that y assms(2) have "y \<in> set (stack s)" by (auto simp: loop_frame_def)
    with assms(1) have "ll s node \<le> ix s y" by (simp add: seen_ok_def)
    moreover from assms(2) have "ll s' node \<le> ll s node" by (simp add: loop_frame_def)
    ultimately show ?thesis using ix_eq[OF i] by simp
  qed
  ultimately show ?thesis by (simp add: seen_ok_def)
qed

lemma tinv_stack_defined:
  assumes "tinv E A s" "n \<in> set (stack s)"
  obtains i l where "index s n = Some i" "lowlinks s n = Some l" "ix s n = i" "ll s n = l" "l \<le> i"
proof -
  from assms have "n \<in> dom (index s)" "n \<in> dom (lowlinks s)" "ll s n \<le> ix s n"
    by (auto simp: tinv_def wf_state_def)
  then show ?thesis using that by (auto simp: ix_def ll_def)
qed

text \<open>A successor that is on the stack: \<^verbatim>\<open>lowlinks[node] = min(lowlinks[node], index[successor])\<close>.\<close>

lemma loop_step_stack:
  assumes pre: "loop_pre E A node stk s" and y: "index s y \<noteq> None" "is_on_stack s y"
    and edge: "(node, y) \<in> E"
  obtains s1 where "lowlink_from_stack node y s = Inr s1" "loop_pre E A node stk s1"
    "loop_frame node s s1" "seen_ok node y s1"
proof -
  from pre obtain mid where inv: "tinv E (insert node A) s" and nA: "node \<notin> A"
    and st: "stack s = mid @ node # stk" and midA: "set mid \<inter> A = {}"
    and low: "\<forall>x \<in> set mid. ll s node \<le> ll s x"
    by (auto simp: loop_pre_def)
  from st have ns: "node \<in> set (stack s)" by simp
  from inv ns obtain i l where n: "lowlinks s node = Some l" "ll s node = l"
    by (rule tinv_stack_defined)
  from y(1) obtain j where j: "index s y = Some j" by auto
  then have ixy: "ix s y = j" by (simp add: ix_def)
  let ?s1 = "set_lowlink node (min l j) s"
  have r: "lowlink_from_stack node y s = Inr ?s1"
    by (simp add: lowlink_from_stack_def n j set_lowlink_def)
  have via: "\<exists>u \<in> set (stack s). ix s u = min l j \<and> (node, u) \<in> E\<^sup>*"
  proof (cases "l \<le> j")
    case True
    from inv ns have "\<exists>u \<in> set (stack s). ix s u = ll s node \<and> (node, u) \<in> E\<^sup>*"
      by (auto simp: tinv_def reach_inv_def)
    with True n show ?thesis by (simp add: min_def)
  next
    case False
    from inv y(2) have "y \<in> set (stack s)" by (simp add: tinv_def wf_state_def)
    with False ixy edge show ?thesis by (auto simp: min_def)
  qed
  have inv1: "tinv E (insert node A) ?s1"
    using inv n via by (intro tinv_set_lowlink) auto
  from inv st have "node \<notin> set mid" by (auto simp: tinv_def wf_state_def)
  with low n have "\<forall>x \<in> set mid. ll ?s1 node \<le> ll ?s1 x"
    by (auto simp: ll_set_lowlink)
  with inv1 nA st midA have p1: "loop_pre E A node stk ?s1"
    by (auto simp: loop_pre_def)
  have f1: "loop_frame node s ?s1"
    using n by (auto simp: loop_frame_def ll_set_lowlink)
  have "seen_ok node y ?s1"
    using j ixy by (simp add: seen_ok_def ll_set_lowlink dom_def)
  with r p1 f1 show ?thesis by (rule that)
qed

text \<open>A successor that has an index and has left the stack: nothing is assigned.\<close>

lemma loop_step_popped:
  assumes pre: "loop_pre E A node stk s" and y: "index s y \<noteq> None" "\<not> is_on_stack s y"
  shows "seen_ok node y s"
proof -
  from pre have "wf_state s" by (simp add: loop_pre_def tinv_def)
  with y(2) have "y \<notin> set (stack s)" by (simp add: wf_state_def)
  with y(1) show ?thesis by (auto simp: seen_ok_def)
qed

text \<open>A successor without an index: the state after the recursive call and the \<^verbatim>\<open>min\<close> with its lowlink.\<close>

lemma loop_step_child:
  assumes pre: "loop_pre E A node stk s" and post: "sc_post E (insert node A) y s s1"
    and edge: "(node, y) \<in> E"
  obtains s2 where "lowlink_from_child node y s1 = Inr s2" "loop_pre E A node stk s2"
    "loop_frame node s s2" "seen_ok node y s2"
proof -
  from pre obtain mid where inv: "tinv E (insert node A) s" and nA: "node \<notin> A"
    and st: "stack s = mid @ node # stk" and midA: "set mid \<inter> A = {}"
    and low: "\<forall>x \<in> set mid. ll s node \<le> ll s x"
    by (auto simp: loop_pre_def)
  from post obtain pre1 where inv1: "tinv E (insert node A) s1" and fr: "sc_frame s s1"
    and yi: "index s1 y = Some (index_counter s)" and st1: "stack s1 = pre1 @ stack s"
    and new: "set pre1 \<inter> dom (index s) = {}"
    and pnil: "pre1 = [] \<longrightarrow> ll s1 y = ix s1 y"
    and plow: "pre1 \<noteq> [] \<longrightarrow> last pre1 = y \<and> (\<forall>x \<in> set pre1. ll s1 y \<le> ll s1 x)"
    unfolding sc_post_def by blast
  from yi have yd: "y \<in> dom (index s1)" by auto
  from inv have w: "wf_state s" by (simp add: tinv_def)
  from inv1 have w1: "wf_state s1" by (simp add: tinv_def)
  from w have sd: "set (stack s) \<subseteq> dom (index s)" by (simp add: wf_state_def)
  have same: "index s1 n = index s n \<and> lowlinks s1 n = lowlinks s n" if "n \<in> set (stack s)" for n
    using that sd fr by (auto simp: sc_frame_def)
  from st st1 have ns1: "node \<in> set (stack s1)" and ns: "node \<in> set (stack s)" by simp_all
  from inv1 ns1 obtain a where a: "lowlinks s1 node = Some a" "ll s1 node = a"
    by (rule tinv_stack_defined)
  from w1 yd have "y \<in> dom (lowlinks s1)" by (simp add: wf_state_def)
  then obtain b where b: "lowlinks s1 y = Some b" by auto
  then have llb: "ll s1 y = b" by (simp add: ll_def)
  let ?s2 = "set_lowlink node (min a b) s1"
  have r: "lowlink_from_child node y s1 = Inr ?s2"
    by (simp add: lowlink_from_child_def a b set_lowlink_def)
  have via: "\<exists>u \<in> set (stack s1). ix s1 u = min a b \<and> (node, u) \<in> E\<^sup>*"
  proof (cases "a \<le> b")
    case True
    from inv1 ns1 have "\<exists>u \<in> set (stack s1). ix s1 u = ll s1 node \<and> (node, u) \<in> E\<^sup>*"
      by (auto simp: tinv_def reach_inv_def)
    with True a show ?thesis by (simp add: min_def)
  next
    case False
    have "pre1 \<noteq> []"
    proof
      assume "pre1 = []"
      with pnil llb yi have "b = index_counter s" by (simp add: ix_def)
      moreover from w1 ns1 a have "a \<le> ix s1 node" by (auto simp: wf_state_def)
      moreover from same[OF ns] have "ix s1 node = ix s node" by (simp add: ix_def)
      moreover from w ns sd have "ix s node < index_counter s" by (auto simp: wf_state_def)
      ultimately show False using False by simp
    qed
    with plow st1 have "y \<in> set (stack s1)" by (metis last_in_set Un_iff set_append)
    with inv1 obtain u where "u \<in> set (stack s1)" "ix s1 u = ll s1 y" "(y, u) \<in> E\<^sup>*"
      unfolding tinv_def reach_inv_def by blast
    with edge llb False show ?thesis
      by (auto simp: min_def intro: converse_rtrancl_into_rtrancl)
  qed
  have inv2: "tinv E (insert node A) ?s2"
    using inv1 a via by (intro tinv_set_lowlink) auto
  have st2: "stack ?s2 = (pre1 @ mid) @ node # stk" using st st1 by simp
  from w1 st1 st have d1: "distinct (pre1 @ mid @ node # stk)" by (simp add: wf_state_def)
  from inv have "A \<subseteq> set (stack s)" by (auto simp: tinv_def fin_inv_def)
  with sd new midA have mA: "set (pre1 @ mid) \<inter> A = {}" by (simp add: Int_Un_distrib2) blast
  have lows: "\<forall>x \<in> set (pre1 @ mid). ll ?s2 node \<le> ll ?s2 x"
  proof
    fix x assume x: "x \<in> set (pre1 @ mid)"
    with d1 have xn: "x \<noteq> node" by auto
    show "ll ?s2 node \<le> ll ?s2 x"
    proof (cases "x \<in> set pre1")
      case True
      with plow have "ll s1 y \<le> ll s1 x" by auto
      with xn llb show ?thesis by (simp add: ll_set_lowlink)
    next
      case False
      with x have xm: "x \<in> set mid" by simp
      with st have "x \<in> set (stack s)" by simp
      from same[OF this] same[OF ns] have "ll s1 x = ll s x" "ll s1 node = ll s node"
        by (simp_all add: ll_def)
      with low xm a xn show ?thesis by (auto simp: ll_set_lowlink)
    qed
  qed
  have p2: "loop_pre E A node stk ?s2"
  proof -
    from st2 mA lows have "stack ?s2 = (pre1 @ mid) @ node # stk \<and> set (pre1 @ mid) \<inter> A = {} \<and>
        (\<forall>x \<in> set (pre1 @ mid). ll ?s2 node \<le> ll ?s2 x)"
      by (intro conjI)
    then have "\<exists>m. stack ?s2 = m @ node # stk \<and> set m \<inter> A = {} \<and>
        (\<forall>x \<in> set m. ll ?s2 node \<le> ll ?s2 x)"
      by (rule exI)
    with inv2 nA show ?thesis unfolding loop_pre_def by (intro conjI)
  qed
  have f2: "loop_frame node s ?s2"
  proof -
    have "ll ?s2 node \<le> ll s node"
      using same[OF ns] a by (simp add: ll_set_lowlink ll_def)
    moreover have "set (stack ?s2) \<inter> dom (index s) \<subseteq> set (stack s)"
      using st1 new by auto
    moreover from fr have "\<forall>n \<in> dom (index s). index ?s2 n = index s n \<and>
        (n \<noteq> node \<longrightarrow> lowlinks ?s2 n = lowlinks s n)"
      by (simp add: sc_frame_def)
    moreover from fr have "set (components s) \<subseteq> set (components ?s2)"
      by (simp add: sc_frame_def)
    ultimately show ?thesis
      unfolding loop_frame_def by (intro conjI)
  qed
  have "seen_ok node y ?s2"
  proof -
    have "ll ?s2 node \<le> ix ?s2 y" if "y \<in> set (stack s1)"
    proof -
      from w1 that have "ll s1 y \<le> ix s1 y" by (simp add: wf_state_def)
      with llb show ?thesis by (simp add: ll_set_lowlink)
    qed
    with yd show ?thesis by (simp add: seen_ok_def)
  qed
  with r p2 f2 show ?thesis by (rule that)
qed

lemma strongconnect_tinv:
  "E = tarjan_edges known g \<Longrightarrow> tinv E A s \<Longrightarrow> index s node = None \<Longrightarrow>
     \<forall>x \<in> set (stack s). (x, node) \<in> E\<^sup>* \<Longrightarrow>
     \<exists>s'. strongconnect known g node s = Inr s' \<and> sc_post E A node s s'"
  "E = tarjan_edges known g \<Longrightarrow> loop_pre E A node stk s \<Longrightarrow>
     \<forall>y \<in> set succs. known y \<longrightarrow> (node, y) \<in> E \<Longrightarrow>
     \<exists>s'. strongconnect_successors known g node succs s = Inr s' \<and> loop_pre E A node stk s' \<and>
          loop_frame node s s' \<and> (\<forall>y \<in> set succs. known y \<longrightarrow> seen_ok node y s')"
proof (induction known g node s and known g node succs s arbitrary: A and A stk
    rule: strongconnect_strongconnect_successors.induct)
  case (1 known g node s)
  note E = "1.prems"(1) and inv = "1.prems"(2) and new = "1.prems"(3) and to = "1.prems"(4)
  let ?s0 = "enter node s"
  from inv have w: "wf_state s" and AS: "A \<subseteq> set (stack s)" by (auto simp: tinv_def fin_inv_def)
  from w new have nst: "node \<notin> set (stack s)" by (auto simp: wf_state_def)
  with AS have nA: "node \<notin> A" by auto
  have inv0: "tinv E (insert node A) ?s0" using inv new to by (rule tinv_enter)
  have "stack ?s0 = [] @ node # stack s \<and> set [] \<inter> A = {} \<and> (\<forall>x \<in> set []. ll ?s0 node \<le> ll ?s0 x)"
    by simp
  then have "\<exists>mid. stack ?s0 = mid @ node # stack s \<and> set mid \<inter> A = {} \<and>
      (\<forall>x \<in> set mid. ll ?s0 node \<le> ll ?s0 x)" by (rule exI)
  with inv0 nA have pre0: "loop_pre E A node (stack s) ?s0" unfolding loop_pre_def by (intro conjI)
  have edges: "\<forall>y \<in> set (dict_get g node []). known y \<longrightarrow> (node, y) \<in> E"
    by (simp add: E tarjan_edges_def)
  from "1.IH"[OF E pre0 edges] obtain s2 where
    r2: "strongconnect_successors known g node (dict_get g node []) ?s0 = Inr s2"
    and pre2: "loop_pre E A node (stack s) s2" and fr2: "loop_frame node ?s0 s2"
    and seen: "\<forall>y \<in> set (dict_get g node []). known y \<longrightarrow> seen_ok node y s2"
    by blast
  from seen have proc: "processed E node s2"
    by (auto simp: processed_def seen_ok_def E tarjan_edges_def)
  from pre2 obtain mid where inv2: "tinv E (insert node A) s2"
    and st2: "stack s2 = mid @ node # stack s" and midA: "set mid \<inter> A = {}"
    and low: "\<forall>x \<in> set mid. ll s2 node \<le> ll s2 x"
    by (auto simp: loop_pre_def)
  from inv2 have w2: "wf_state s2" by (simp add: tinv_def)
  with st2 have d2: "distinct (mid @ node # stack s)" by (simp add: wf_state_def)
  then have nmid: "node \<notin> set mid" by auto
  from st2 have ns2: "node \<in> set (stack s2)" by simp
  from inv2 ns2 obtain i l where il: "index s2 node = Some i" "lowlinks s2 node = Some l"
    "ix s2 node = i" "ll s2 node = l" "l \<le> i"
    by (rule tinv_stack_defined)
  have "node \<in> dom (index ?s0)" by simp
  with fr2 have "index s2 node = index ?s0 node" unfolding loop_frame_def by blast
  then have i2: "index s2 node = Some (index_counter s)" by simp
  have old: "index s2 n = index s n \<and> lowlinks s2 n = lowlinks s n" if "n \<in> dom (index s)" for n
  proof -
    from that new have "n \<noteq> node" by auto
    moreover from that have "n \<in> dom (index ?s0)" by auto
    ultimately show ?thesis using fr2 by (auto simp: loop_frame_def)
  qed
  have comps2: "set (components s) \<subseteq> set (components s2)"
    using fr2 by (simp add: loop_frame_def)
  have nd2: "node \<in> dom (index s2)" using il by auto
  show ?case
  proof (cases "l = i")
    case True
    let ?s' = "pop_state (mid @ [node]) (stack s) s2"
    from True il st2 nmid have em: "emit_component node s2 = Inr ?s'"
      by (intro emit_component_pop) auto
    from True il have root: "ll s2 node = ix s2 node" by simp
    have inv': "tinv E A ?s'"
      using inv2 st2 midA nA root low proc by (rule tinv_pop)
    have "sc_frame s ?s'"
      using old comps2 by (auto simp: sc_frame_def pop_state_def)
    moreover have "stack ?s' = [] @ stack s \<and> set [] \<inter> dom (index s) = {} \<and>
        ([] = [] \<longrightarrow> ll ?s' node = ix ?s' node) \<and>
        ([] \<noteq> [] \<longrightarrow> last [] = node \<and> (\<forall>x \<in> set []. ll ?s' node \<le> ll ?s' x))"
      using root by simp
    then have "\<exists>pre. stack ?s' = pre @ stack s \<and> set pre \<inter> dom (index s) = {} \<and>
        (pre = [] \<longrightarrow> ll ?s' node = ix ?s' node) \<and>
        (pre \<noteq> [] \<longrightarrow> last pre = node \<and> (\<forall>x \<in> set pre. ll ?s' node \<le> ll ?s' x))"
      by (rule exI)
    ultimately have "sc_post E A node s ?s'"
      using inv' i2 unfolding sc_post_def by simp
    with r2 em show ?thesis by (simp add: strongconnect.simps)
  next
    case False
    with il have em: "emit_component node s2 = Inr s2"
      by (intro emit_component_keep) auto
    from False il have "ll s2 node < ix s2 node" by simp
    with inv2 proc have inv': "tinv E A s2" by (rule tinv_finish)
    have "sc_frame s s2" using old comps2 by (auto simp: sc_frame_def)
    moreover have newmid: "set (mid @ [node]) \<inter> dom (index s) = {}"
    proof -
      have False if "x \<in> set mid" "x \<in> dom (index s)" for x
      proof -
        from that(2) have "x \<in> dom (index ?s0)" by auto
        with that(1) st2 fr2 have "x \<in> set (stack ?s0)" by (auto simp: loop_frame_def)
        with that(1) d2 show False by auto
      qed
      with new show ?thesis by auto
    qed
    have "stack s2 = (mid @ [node]) @ stack s \<and> set (mid @ [node]) \<inter> dom (index s) = {} \<and>
        (mid @ [node] = [] \<longrightarrow> ll s2 node = ix s2 node) \<and>
        (mid @ [node] \<noteq> [] \<longrightarrow> last (mid @ [node]) = node \<and>
           (\<forall>x \<in> set (mid @ [node]). ll s2 node \<le> ll s2 x))"
      using st2 newmid low by simp
    then have "\<exists>pre. stack s2 = pre @ stack s \<and> set pre \<inter> dom (index s) = {} \<and>
        (pre = [] \<longrightarrow> ll s2 node = ix s2 node) \<and>
        (pre \<noteq> [] \<longrightarrow> last pre = node \<and> (\<forall>x \<in> set pre. ll s2 node \<le> ll s2 x))"
      by (rule exI)
    ultimately have "sc_post E A node s s2"
      using inv' i2 unfolding sc_post_def by simp
    with r2 em show ?thesis by (simp add: strongconnect.simps)
  qed
next
  case (2 known g node s)
  then show ?case by (simp add: loop_frame_refl)
next
  case (3 known g node successor rest s)
  note E = "3.prems"(1) and pre = "3.prems"(2) and edges = "3.prems"(3)
  from edges have edges': "\<forall>y \<in> set rest. known y \<longrightarrow> (node, y) \<in> E" by simp
  show ?case
  proof (cases "known successor")
    case False
    from "3.IH"(1)[OF False E pre edges'] False show ?thesis by auto
  next
    case known: True
    then have nn: "\<not> \<not> known successor" by simp
    from known edges have edge: "(node, successor) \<in> E" by simp
    have step: "\<exists>s'. strongconnect_successors known g node (successor # rest) s = Inr s' \<and>
        loop_pre E A node stk s' \<and> loop_frame node s s' \<and>
        (\<forall>y \<in> set (successor # rest). known y \<longrightarrow> seen_ok node y s')"
      if r1: "strongconnect_successors known g node (successor # rest) s
                = strongconnect_successors known g node rest s1"
        and pre1: "loop_pre E A node stk s1" and fr1: "loop_frame node s s1"
        and seen1: "seen_ok node successor s1"
        and IH: "\<And>A stk. E = tarjan_edges known g \<Longrightarrow> loop_pre E A node stk s1 \<Longrightarrow>
            \<forall>y \<in> set rest. known y \<longrightarrow> (node, y) \<in> E \<Longrightarrow>
            \<exists>s'. strongconnect_successors known g node rest s1 = Inr s' \<and> loop_pre E A node stk s' \<and>
              loop_frame node s1 s' \<and> (\<forall>y \<in> set rest. known y \<longrightarrow> seen_ok node y s')"
      for s1
    proof -
      from IH[OF E pre1 edges'] obtain s' where
        r: "strongconnect_successors known g node rest s1 = Inr s'"
        and p: "loop_pre E A node stk s'" and f: "loop_frame node s1 s'"
        and sn: "\<forall>y \<in> set rest. known y \<longrightarrow> seen_ok node y s'"
        by blast
      from fr1 f have "loop_frame node s s'" by (rule loop_frame_trans)
      moreover from seen1 f have "seen_ok node successor s'" by (rule seen_ok_frame)
      ultimately show ?thesis using r1 r p sn by auto
    qed
    show ?thesis
    proof (cases "index s successor = None")
      case unseen: True
      from pre obtain mid where inv: "tinv E (insert node A) s"
        and st: "stack s = mid @ node # stk" and midA: "set mid \<inter> A = {}"
        by (auto simp: loop_pre_def)
      from inv have w: "wf_state s" and re: "reach_inv E (insert node A) s"
        by (simp_all add: tinv_def)
      have to: "\<forall>x \<in> set (stack s). (x, successor) \<in> E\<^sup>*"
      proof
        fix x assume "x \<in> set (stack s)"
        with w re st midA have "(x, node) \<in> E\<^sup>*" by (rule stack_reaches_active)
        with edge show "(x, successor) \<in> E\<^sup>*" by (rule rtrancl_into_rtrancl[rotated])
      qed
      from "3.IH"(2)[OF nn unseen E inv unseen to] obtain s1 where
        c: "strongconnect known g successor s = Inr s1"
        and post: "sc_post E (insert node A) successor s s1"
        by blast
      from pre post edge obtain s2 where
        u: "lowlink_from_child node successor s1 = Inr s2" and pre2: "loop_pre E A node stk s2"
        and fr2: "loop_frame node s s2" and seen2: "seen_ok node successor s2"
        by (rule loop_step_child)
      have "strongconnect_successors known g node (successor # rest) s
              = strongconnect_successors known g node rest s2"
        using known unseen c u by simp
      then show ?thesis
        using pre2 fr2 seen2 "3.IH"(3)[OF nn unseen c u] by (rule step)
    next
      case seen: False
      show ?thesis
      proof (cases "is_on_stack s successor")
        case True
        then have ons: "case on_stack s successor of None \<Rightarrow> False | Some b \<Rightarrow> b"
          by (simp add: is_on_stack_def)
        from pre seen True edge obtain s1 where
          u: "lowlink_from_stack node successor s = Inr s1" and pre1: "loop_pre E A node stk s1"
          and fr1: "loop_frame node s s1" and seen1: "seen_ok node successor s1"
          by (rule loop_step_stack)
        have "strongconnect_successors known g node (successor # rest) s
                = strongconnect_successors known g node rest s1"
          using known seen ons u by (simp del: not_None_eq)
        then show ?thesis
          using pre1 fr1 seen1 "3.IH"(4)[OF nn seen ons u] by (rule step)
      next
        case False
        then have off: "\<not> (case on_stack s successor of None \<Rightarrow> False | Some b \<Rightarrow> b)"
          by (simp add: is_on_stack_def)
        from pre seen False have seen0: "seen_ok node successor s" by (rule loop_step_popped)
        have "strongconnect_successors known g node (successor # rest) s
                = strongconnect_successors known g node rest s"
          using known seen off by (simp del: not_None_eq)
        then show ?thesis
          using pre loop_frame_refl seen0 "3.IH"(5)[OF nn seen off] by (rule step)
      qed
    qed
  qed
qed

lemma tinv_init: "tinv E {} tarjan_init"
  by (simp add: tinv_def wf_state_def wf_components_def fin_inv_def closed_inv_def reach_inv_def
      sound_inv_def tarjan_init_def is_on_stack_def popped_def)

lemma tinv_no_active_stack_empty:
  assumes "tinv E {} s"
  shows "stack s = []"
proof (rule ccontr)
  assume ne: "stack s \<noteq> []"
  let ?m = "Min (ix s ` set (stack s))"
  from ne have "?m \<in> ix s ` set (stack s)" by (intro Min_in) auto
  then obtain x where x: "x \<in> set (stack s)" "ix s x = ?m" by auto
  from assms x(1) obtain u where u: "u \<in> set (stack s)" "ix s u = ll s x" and lt: "ll s x < ix s x"
    unfolding tinv_def reach_inv_def by auto
  from u(1) have "?m \<le> ix s u" by (intro Min_le) auto
  with u(2) lt x(2) show False by simp
qed

lemma strongconnect_roots_tinv:
  assumes E: "E = tarjan_edges known g"
  shows "tinv E {} s \<Longrightarrow>
     \<exists>s'. strongconnect_roots known g roots s = Inr s' \<and> tinv E {} s' \<and>
          set roots \<union> dom (index s) \<subseteq> dom (index s')"
proof (induction roots arbitrary: s)
  case Nil
  then show ?case by simp
next
  case (Cons node rest)
  show ?case
  proof (cases "index s node = None")
    case True
    from Cons.prems have "stack s = []" by (rule tinv_no_active_stack_empty)
    then have "\<forall>x \<in> set (stack s). (x, node) \<in> E\<^sup>*" by simp
    from strongconnect_tinv(1)[OF E Cons.prems True this] obtain s1 where
      r: "strongconnect known g node s = Inr s1" and post: "sc_post E {} node s s1"
      by blast
    from post have inv1: "tinv E {} s1" and nd: "node \<in> dom (index s1)"
      and sub: "dom (index s) \<subseteq> dom (index s1)"
      by (auto simp: sc_post_def sc_frame_def dom_def)
    from Cons.IH[OF inv1] obtain s' where
      r': "strongconnect_roots known g rest s1 = Inr s'" and inv': "tinv E {} s'"
      and sub': "set rest \<union> dom (index s1) \<subseteq> dom (index s')"
      by blast
    from nd sub sub' have "set (node # rest) \<union> dom (index s) \<subseteq> dom (index s')"
      by (simp add: subset_iff; blast)
    with r r' inv' True show ?thesis by simp
  next
    case False
    from Cons.IH[OF Cons.prems] obtain s' where
      r': "strongconnect_roots known g rest s = Inr s'" and inv': "tinv E {} s'"
      and sub': "set rest \<union> dom (index s) \<subseteq> dom (index s')"
      by blast
    from False sub' have "set (node # rest) \<union> dom (index s) \<subseteq> dom (index s')"
      by (simp add: subset_iff; blast)
    with r' inv' False show ?thesis by (simp del: not_None_eq)
  qed
qed

lemma tarjan_correct:
  assumes E: "E = tarjan_edges known g"
  shows "\<exists>sccs. tarjan known g roots = Inr sccs \<and>
     distinct (concat sccs) \<and> (\<forall>c \<in> set sccs. 2 \<le> length c) \<and>
     (\<forall>c \<in> set sccs. \<forall>x \<in> set c. \<forall>y \<in> set c. (x, y) \<in> E\<^sup>*) \<and>
     (\<forall>x \<in> set roots. \<forall>y \<in> set roots. x \<noteq> y \<and> (x, y) \<in> E\<^sup>* \<and> (y, x) \<in> E\<^sup>* \<longrightarrow>
        (\<exists>c \<in> set sccs. x \<in> set c \<and> y \<in> set c))"
proof -
  from strongconnect_roots_tinv[OF E tinv_init, of roots] obtain s' where
    r: "strongconnect_roots known g roots tarjan_init = Inr s'" and inv: "tinv E {} s'"
    and sub: "set roots \<subseteq> dom (index s')"
    by auto
  from inv have emp: "stack s' = []" by (rule tinv_no_active_stack_empty)
  then have pop: "popped s' = dom (index s')" by (simp add: popped_def)
  from inv have "wf_components s'" "sound_inv E s'" "closed_inv E s'" by (simp_all add: tinv_def)
  then have a: "distinct (concat (components s'))" and b: "\<forall>c \<in> set (components s'). 2 \<le> length c"
    and c: "\<forall>c \<in> set (components s'). \<forall>x \<in> set c. \<forall>y \<in> set c. (x, y) \<in> E\<^sup>*"
    and d: "\<forall>x \<in> popped s'. \<forall>y \<in> popped s'. x \<noteq> y \<and> (x, y) \<in> E\<^sup>* \<and> (y, x) \<in> E\<^sup>* \<longrightarrow>
        (\<exists>c \<in> set (components s'). x \<in> set c \<and> y \<in> set c)"
    by (simp_all add: wf_components_def sound_inv_def closed_inv_def)
  from d sub pop have d': "\<forall>x \<in> set roots. \<forall>y \<in> set roots. x \<noteq> y \<and> (x, y) \<in> E\<^sup>* \<and> (y, x) \<in> E\<^sup>* \<longrightarrow>
        (\<exists>c \<in> set (components s'). x \<in> set c \<and> y \<in> set c)"
    by (metis subsetD)
  from r a b c d' show ?thesis by (simp add: tarjan_def)
qed

section \<open>Cycles and components\<close>

text \<open>\<^verbatim>\<open>build_dependency_graph\<close> leaves \<^verbatim>\<open>self.assemblies\<close> as it is and puts every entry of \<^verbatim>\<open>references\<close> of every stored declaration into \<^verbatim>\<open>self.dependency_graph\<close>.\<close>

lemma dict_get_dict_set:
  "dict_get (dict_set d k v) k' dflt = (if k' = k then v else dict_get d k' dflt)"
  by (simp add: dict_get_def map_of_dict_set)

lemma set_defaultdict_add:
  "set (dict_get (defaultdict_add d k x) k' []) =
     (if k' = k then insert x (set (dict_get d k [])) else set (dict_get d k' []))"
  by (auto simp: defaultdict_add_def dict_get_dict_set set_add_def)

lemma add_dependency_graph:
  "set (dict_get (dependency_graph (add_dependency n r a)) k []) =
     (if k = n then insert r (set (dict_get (dependency_graph a) n []))
      else set (dict_get (dependency_graph a) k []))"
  by (simp add: add_dependency_def set_defaultdict_add)

lemma add_dependency_assemblies [simp]: "assemblies (add_dependency n r a) = assemblies a"
  by (simp add: add_dependency_def)

definition one_assembly :: "name \<Rightarrow> asmdef \<Rightarrow> analyzer \<Rightarrow> analyzer" where
  "one_assembly assembly_name assembly_info a =
     fold (\<lambda>ref a. if startswith ref ''GUID:'' then a else add_dependency assembly_name ref a)
          (assembly_references assembly_info)
          (fold (add_dependency assembly_name) (references assembly_info) a)"

lemma fold_add_dependency:
  "assemblies (fold (add_dependency n) refs a) = assemblies a \<and>
   set (dict_get (dependency_graph (fold (add_dependency n) refs a)) k []) =
     (if k = n then set refs \<union> set (dict_get (dependency_graph a) n [])
      else set (dict_get (dependency_graph a) k []))"
  by (induction refs arbitrary: a) (auto simp: add_dependency_graph)

lemma fold_add_dependency_guid:
  "assemblies (fold (\<lambda>ref a. if startswith ref ''GUID:'' then a else add_dependency n ref a) refs a)
     = assemblies a \<and>
   set (dict_get (dependency_graph a) k [])
     \<subseteq> set (dict_get (dependency_graph
           (fold (\<lambda>ref a. if startswith ref ''GUID:'' then a else add_dependency n ref a) refs a)) k [])"
proof (induction refs arbitrary: a)
  case Nil
  then show ?case by simp
next
  case (Cons r refs)
  show ?case
  proof (cases "startswith r ''GUID:''")
    case True
    with Cons.IH[of a] show ?thesis by simp
  next
    case False
    have "set (dict_get (dependency_graph a) k [])
        \<subseteq> set (dict_get (dependency_graph (add_dependency n r a)) k [])"
      by (auto simp: add_dependency_graph)
    with Cons.IH[of "add_dependency n r a"] False show ?thesis by auto
  qed
qed

lemma one_assembly_graph:
  "assemblies (one_assembly n info a) = assemblies a"
  "set (dict_get (dependency_graph a) k []) \<subseteq> set (dict_get (dependency_graph (one_assembly n info a)) k [])"
  "set (references info) \<subseteq> set (dict_get (dependency_graph (one_assembly n info a)) n [])"
proof -
  let ?a1 = "fold (add_dependency n) (references info) a"
  from fold_add_dependency[of n "references info" a]
  have a1: "assemblies ?a1 = assemblies a"
    and g1: "\<And>k. set (dict_get (dependency_graph ?a1) k []) =
     (if k = n then set (references info) \<union> set (dict_get (dependency_graph a) n [])
      else set (dict_get (dependency_graph a) k []))"
    by blast+
  from fold_add_dependency_guid[of n "assembly_references info" ?a1]
  have a2: "assemblies (one_assembly n info a) = assemblies ?a1"
    and g2: "\<And>k. set (dict_get (dependency_graph ?a1) k [])
        \<subseteq> set (dict_get (dependency_graph (one_assembly n info a)) k [])"
    unfolding one_assembly_def by blast+
  from a1 a2 show "assemblies (one_assembly n info a) = assemblies a" by simp
  from g1[of k] g2[of k]
  show "set (dict_get (dependency_graph a) k []) \<subseteq> set (dict_get (dependency_graph (one_assembly n info a)) k [])"
    by (auto split: if_splits)
  from g1[of n] g2[of n]
  show "set (references info) \<subseteq> set (dict_get (dependency_graph (one_assembly n info a)) n [])"
    by auto
qed

lemma fold_one_assembly:
  "assemblies (fold (\<lambda>(n, info). one_assembly n info) xs a) = assemblies a \<and>
   set (dict_get (dependency_graph a) k [])
     \<subseteq> set (dict_get (dependency_graph (fold (\<lambda>(n, info). one_assembly n info) xs a)) k []) \<and>
   (\<forall>(n, info) \<in> set xs. set (references info)
      \<subseteq> set (dict_get (dependency_graph (fold (\<lambda>(n, info). one_assembly n info) xs a)) n []))"
proof (induction xs arbitrary: a k)
  case Nil
  then show ?case by simp
next
  case (Cons x xs)
  obtain n info where x: "x = (n, info)" by (cases x)
  let ?a1 = "one_assembly n info a"
  let ?r = "fold (\<lambda>(n, info). one_assembly n info) xs ?a1"
  have r: "fold (\<lambda>(n, info). one_assembly n info) (x # xs) a = ?r" by (simp add: x)
  from Cons.IH[of ?a1] have ih1: "assemblies ?r = assemblies ?a1"
    and ih2: "\<And>k. set (dict_get (dependency_graph ?a1) k []) \<subseteq> set (dict_get (dependency_graph ?r) k [])"
    and ih3: "\<forall>(n, info) \<in> set xs. set (references info) \<subseteq> set (dict_get (dependency_graph ?r) n [])"
    by blast+
  have c1: "assemblies ?r = assemblies a" using ih1 by (simp add: one_assembly_graph(1))
  have c2: "set (dict_get (dependency_graph a) k []) \<subseteq> set (dict_get (dependency_graph ?r) k [])"
    using one_assembly_graph(2)[of a k n info] ih2[of k] by blast
  have c3: "set (references info) \<subseteq> set (dict_get (dependency_graph ?r) n [])"
    using one_assembly_graph(3)[of info n a] ih2[of n] by blast
  show ?case unfolding r using c1 c2 c3 ih3 by (simp add: x)
qed

lemma build_dependency_graph_fold:
  "build_dependency_graph a = fold (\<lambda>(n, info). one_assembly n info) (assemblies a) a"
  unfolding build_dependency_graph_def one_assembly_def ..

lemma build_dependency_graph_assemblies:
  "assemblies (build_dependency_graph a) = assemblies a"
  using fold_one_assembly[of "assemblies a" a] by (simp add: build_dependency_graph_fold)

lemma build_dependency_graph_references:
  assumes "map_of (assemblies a) n = Some info"
  shows "set (references info) \<subseteq> set (dict_get (dependency_graph (build_dependency_graph a)) n [])"
proof -
  from assms have "(n, info) \<in> set (assemblies a)" by (rule map_of_SomeD)
  with fold_one_assembly[of "assemblies a" a] show ?thesis
    unfolding build_dependency_graph_fold by blast
qed

text \<open>Both programs keep the last declaration of every name, so they know the same modules, and every edge that \<open>find_cycles\<close> follows is an edge that \<open>strongconnect\<close> follows.\<close>

lemma map_of_load_assembly_definitions:
  "map_of (assemblies (fst (load_assembly_definitions files analyzer_init))) n
     = last_declaration n files"
  by (simp add: load_assembly_definitions_eq analyzer_init_def fold_dict_set_last[where f = "\<lambda>d. d"]
      split: option.splits)

lemma map_of_assemblies_analyzer_of:
  "map_of (assemblies (analyzer_of files)) n = last_declaration n files"
  by (simp add: analyzer_of_def build_dependency_graph_assemblies map_of_load_assembly_definitions)

lemma keys_analyzer_of:
  "set (dict_keys (assemblies (analyzer_of files))) = set (dict_keys (load_assemblies files))"
  by (auto simp: dict_keys_map_of map_of_assemblies_analyzer_of map_of_load_assemblies
      simp del: not_None_eq)

lemma known_edges_analyzer_of:
  "known_edges (load_assemblies files) \<subseteq> analyzer_edges (analyzer_of files)"
proof
  fix e assume e: "e \<in> known_edges (load_assemblies files)"
  obtain x y where xy: "e = (x, y)" by (cases e)
  from e xy have k: "known_edge (load_assemblies files) x y" by (simp add: known_edges_def)
  then have xk: "x \<in> set (dict_keys (load_assemblies files))"
    and yk: "y \<in> set (dict_keys (load_assemblies files))"
    and yx: "y \<in> set (dict_get (load_assemblies files) x [])"
    by (simp_all add: known_edge_def)
  from xk obtain info where info: "last_declaration x files = Some info"
    by (auto simp: dict_keys_map_of map_of_load_assemblies simp del: not_None_eq)
  with yx have yr: "y \<in> set (references info)"
    by (simp add: dict_get_def map_of_load_assemblies)
  let ?a0 = "fst (load_assembly_definitions files analyzer_init)"
  from info have "map_of (assemblies ?a0) x = Some info"
    by (simp add: map_of_load_assembly_definitions)
  from build_dependency_graph_references[OF this] yr
  have "y \<in> set (dict_get (dependency_graph (analyzer_of files)) x [])"
    by (auto simp: analyzer_of_def)
  moreover from yk have "analyzer_known (analyzer_of files) y"
    by (simp add: analyzer_known_def keys_analyzer_of)
  ultimately show "e \<in> analyzer_edges (analyzer_of files)"
    by (simp add: xy analyzer_edges_def tarjan_edges_def)
qed

text \<open>On a closed walk every node reaches every other node.\<close>

lemma successively_nth_reach:
  "successively R xs \<Longrightarrow> i \<le> j \<Longrightarrow> j < length xs \<Longrightarrow> (xs ! i, xs ! j) \<in> {(a, b). R a b}\<^sup>*"
proof (induction j)
  case 0
  then show ?case by simp
next
  case (Suc j)
  show ?case
  proof (cases "i = Suc j")
    case True
    then show ?thesis by simp
  next
    case False
    with Suc.prems have ij: "i \<le> j" and j: "j < length xs" by simp_all
    from Suc.IH[OF Suc.prems(1) ij j] have "(xs ! i, xs ! j) \<in> {(a, b). R a b}\<^sup>*" .
    moreover from Suc.prems(1,3) have "R (xs ! j) (xs ! Suc j)"
      by (simp add: successively_conv_nth)
    ultimately show ?thesis by (auto intro: rtrancl_into_rtrancl)
  qed
qed

lemma closed_walk_reach:
  assumes s: "successively R c" and hl: "hd c = last c" and x: "x \<in> set c" and y: "y \<in> set c"
  shows "(x, y) \<in> {(a, b). R a b}\<^sup>*"
proof -
  from x obtain i where i: "i < length c" "c ! i = x" by (auto simp: in_set_conv_nth)
  from y obtain j where j: "j < length c" "c ! j = y" by (auto simp: in_set_conv_nth)
  from i have ne: "c \<noteq> []" by auto
  show ?thesis
  proof (cases "i \<le> j")
    case True
    from successively_nth_reach[OF s True j(1)] i j show ?thesis by simp
  next
    case False
    from successively_nth_reach[OF s _ _, of i "length c - 1"] i ne
    have "(x, last c) \<in> {(a, b). R a b}\<^sup>*" by (simp add: last_conv_nth)
    moreover from successively_nth_reach[OF s _ j(1), of 0] j ne
    have "(hd c, y) \<in> {(a, b). R a b}\<^sup>*" by (simp add: hd_conv_nth)
    ultimately show ?thesis using hl by simp
  qed
qed

lemma well_formed_cycle_known:
  assumes "well_formed_cycle g c" "x \<in> set c"
  shows "x \<in> set (dict_keys g)"
proof -
  from assms(2) obtain i where i: "i < length c" "c ! i = x" by (auto simp: in_set_conv_nth)
  from assms(1) have l: "2 \<le> length c" and s: "successively (known_edge g) c"
    by (simp_all add: well_formed_cycle_def)
  show ?thesis
  proof (cases "Suc i < length c")
    case True
    with s have "known_edge g (c ! i) (c ! Suc i)" by (simp add: successively_conv_nth)
    with i show ?thesis by (simp add: known_edge_def)
  next
    case False
    with i l obtain k where k: "i = Suc k" by (cases i) auto
    with i s have "known_edge g (c ! k) (c ! Suc k)" by (auto simp: successively_conv_nth)
    with i k show ?thesis by (auto simp: known_edge_def)
  qed
qed

lemma find_cycles_total: "\<exists>cycles. find_cycles g = Inr cycles"
  using find_cycles_loop_bound[of "\<lparr>visited = {}, rec_stack = {}, path = [], cycles = []\<rparr>" g "dict_keys g"]
  by (auto simp: find_cycles_def)

lemma find_strongly_connected_components_correct:
  "\<exists>sccs. find_strongly_connected_components a = Inr sccs \<and>
     distinct (concat sccs) \<and> (\<forall>c \<in> set sccs. 2 \<le> length c) \<and>
     (\<forall>c \<in> set sccs. \<forall>x \<in> set c. \<forall>y \<in> set c. (x, y) \<in> (analyzer_edges a)\<^sup>*) \<and>
     (\<forall>x \<in> set (dict_keys (assemblies a)). \<forall>y \<in> set (dict_keys (assemblies a)).
         x \<noteq> y \<and> (x, y) \<in> (analyzer_edges a)\<^sup>* \<and> (y, x) \<in> (analyzer_edges a)\<^sup>* \<longrightarrow>
         (\<exists>c \<in> set sccs. x \<in> set c \<and> y \<in> set c))"
  unfolding find_strongly_connected_components_def
  using tarjan_correct[of "analyzer_edges a" "analyzer_known a" "dependency_graph a" "dict_keys (assemblies a)"]
  by (simp add: analyzer_edges_def analyzer_known_def[abs_def])

lemma distinct_concat_unique:
  assumes "distinct (concat xss)" "s \<in> set xss" "t \<in> set xss" "x \<in> set s" "x \<in> set t"
  shows "s = t"
  using assms
proof (induction xss)
  case Nil
  then show ?case by simp
next
  case (Cons a xss)
  then show ?case by auto
qed

lemma card_two_distinct: "2 \<le> card (set c) \<Longrightarrow> \<exists>x \<in> set c. \<exists>y \<in> set c. x \<noteq> y"
proof (rule ccontr)
  assume c: "2 \<le> card (set c)" and n: "\<not> (\<exists>x \<in> set c. \<exists>y \<in> set c. x \<noteq> y)"
  then have "\<forall>a \<in> set c. \<forall>b \<in> set c. a = b" by blast
  then have "card (set c) \<le> Suc 0" by (simp add: card_le_Suc0_iff_eq)
  with c show False by simp
qed

lemma rtrancl_target_known:
  assumes "(x, y) \<in> (analyzer_edges a)\<^sup>*" "x \<noteq> y"
  shows "y \<in> set (dict_keys (assemblies a))"
proof -
  from assms have "(x, y) \<in> (analyzer_edges a)\<^sup>+" by (simp add: rtrancl_eq_or_trancl)
  then obtain z where "(z, y) \<in> analyzer_edges a" by (auto dest: tranclD2)
  then show ?thesis by (simp add: analyzer_edges_def tarjan_edges_def analyzer_known_def)
qed

lemma component_membership:
  assumes X: "X \<in> set (dict_keys (assemblies a))"
    and sccs: "find_strongly_connected_components a = Inr sccs"
  shows "(\<exists>s \<in> set sccs. X \<in> set s) \<longleftrightarrow>
         (\<exists>y. y \<noteq> X \<and> (X, y) \<in> (analyzer_edges a)\<^sup>* \<and> (y, X) \<in> (analyzer_edges a)\<^sup>*)"
proof
  let ?E = "analyzer_edges a"
  from find_strongly_connected_components_correct[of a] sccs
  have dis: "distinct (concat sccs)" and len: "\<forall>c \<in> set sccs. 2 \<le> length c"
    and sound: "\<forall>c \<in> set sccs. \<forall>x \<in> set c. \<forall>y \<in> set c. (x, y) \<in> ?E\<^sup>*"
    and compl: "\<And>x y. x \<in> set (dict_keys (assemblies a)) \<Longrightarrow> y \<in> set (dict_keys (assemblies a)) \<Longrightarrow>
         x \<noteq> y \<Longrightarrow> (x, y) \<in> ?E\<^sup>* \<Longrightarrow> (y, x) \<in> ?E\<^sup>* \<Longrightarrow> \<exists>s \<in> set sccs. x \<in> set s \<and> y \<in> set s"
    by auto
  {
    assume "\<exists>s \<in> set sccs. X \<in> set s"
    then obtain s where s: "s \<in> set sccs" and Xs: "X \<in> set s" by blast
    from dis s have ds: "distinct s" by (auto simp: distinct_concat_iff)
    from len s have "2 \<le> length s" by blast
    with ds have "2 \<le> card (set s)" by (simp add: distinct_card)
    from card_two_distinct[OF this] obtain u v where u: "u \<in> set s" and v: "v \<in> set s" and uv: "u \<noteq> v"
      by blast
    then obtain y where y: "y \<in> set s" and yX: "y \<noteq> X" by (cases "u = X") auto
    from sound s Xs y have "(X, y) \<in> ?E\<^sup>*" "(y, X) \<in> ?E\<^sup>*" by blast+
    with yX show "\<exists>y. y \<noteq> X \<and> (X, y) \<in> ?E\<^sup>* \<and> (y, X) \<in> ?E\<^sup>*" by blast
  }
  {
    assume "\<exists>y. y \<noteq> X \<and> (X, y) \<in> ?E\<^sup>* \<and> (y, X) \<in> ?E\<^sup>*"
    then obtain y where yX: "y \<noteq> X" and r1: "(X, y) \<in> ?E\<^sup>*" and r2: "(y, X) \<in> ?E\<^sup>*" by blast
    from rtrancl_target_known[OF r1] yX have yk: "y \<in> set (dict_keys (assemblies a))" by blast
    from compl[OF X yk _ r1 r2] yX show "\<exists>s \<in> set sccs. X \<in> set s" by blast
  }
qed

lemma well_formed_cycle_components:
  assumes wf: "well_formed_cycle (load_assemblies files) c"
    and sccs: "find_strongly_connected_components (analyzer_of files) = Inr sccs"
  shows "((\<exists>x \<in> set c. \<exists>y. y \<noteq> x \<and> (x, y) \<in> (analyzer_edges (analyzer_of files))\<^sup>* \<and>
                              (y, x) \<in> (analyzer_edges (analyzer_of files))\<^sup>*) \<longrightarrow>
            (\<exists>!s. s \<in> set sccs \<and> set c \<subseteq> set s)) \<and>
         (\<not> (\<exists>x \<in> set c. \<exists>y. y \<noteq> x \<and> (x, y) \<in> (analyzer_edges (analyzer_of files))\<^sup>* \<and>
                              (y, x) \<in> (analyzer_edges (analyzer_of files))\<^sup>*) \<longrightarrow>
            (\<exists>X. set c = {X}) \<and> \<not> (\<exists>s \<in> set sccs. set c \<subseteq> set s))"
proof (intro conjI impI)
  let ?a = "analyzer_of files"
  let ?E = "analyzer_edges ?a"
  from find_strongly_connected_components_correct[of ?a] sccs
  have dis: "distinct (concat sccs)"
    and compl: "\<And>x y. x \<in> set (dict_keys (assemblies ?a)) \<Longrightarrow> y \<in> set (dict_keys (assemblies ?a)) \<Longrightarrow>
         x \<noteq> y \<Longrightarrow> (x, y) \<in> ?E\<^sup>* \<Longrightarrow> (y, x) \<in> ?E\<^sup>* \<Longrightarrow> \<exists>s \<in> set sccs. x \<in> set s \<and> y \<in> set s"
    by auto
  have reach: "(x, y) \<in> ?E\<^sup>*" if "x \<in> set c" "y \<in> set c" for x y
  proof -
    from wf have "successively (known_edge (load_assemblies files)) c" and "hd c = last c"
      by (simp_all add: well_formed_cycle_def)
    from closed_walk_reach[OF this that]
    have "(x, y) \<in> (known_edges (load_assemblies files))\<^sup>*" by (simp add: known_edges_def)
    with rtrancl_mono[OF known_edges_analyzer_of[of files]] show ?thesis by blast
  qed
  have key: "x \<in> set (dict_keys (assemblies ?a))" if "x \<in> set c" for x
    using well_formed_cycle_known[OF wf that] by (simp add: keys_analyzer_of)
  {
    assume "\<exists>x \<in> set c. \<exists>y. y \<noteq> x \<and> (x, y) \<in> ?E\<^sup>* \<and> (y, x) \<in> ?E\<^sup>*"
    then obtain x y where x: "x \<in> set c" and yx: "y \<noteq> x"
      and r1: "(x, y) \<in> ?E\<^sup>*" and r2: "(y, x) \<in> ?E\<^sup>*" by blast
    from rtrancl_target_known[OF r1] yx have yk: "y \<in> set (dict_keys (assemblies ?a))" by blast
    from compl[OF key[OF x] yk _ r1 r2] yx
    obtain s where s: "s \<in> set sccs" and xs: "x \<in> set s" by blast
    have sub: "set c \<subseteq> set s"
    proof
      fix z assume z: "z \<in> set c"
      show "z \<in> set s"
      proof (cases "z = x")
        case True
        with xs show ?thesis by simp
      next
        case False
        from compl[OF key[OF z] key[OF x] False reach[OF z x] reach[OF x z]]
        obtain t where t: "t \<in> set sccs" and zt: "z \<in> set t" and xt: "x \<in> set t" by blast
        from distinct_concat_unique[OF dis s t xs xt] zt show ?thesis by simp
      qed
    qed
    show "\<exists>!s. s \<in> set sccs \<and> set c \<subseteq> set s"
    proof (rule ex1I[of _ s])
      show "s \<in> set sccs \<and> set c \<subseteq> set s" using s sub by simp
    next
      fix t assume t: "t \<in> set sccs \<and> set c \<subseteq> set t"
      with x have "x \<in> set t" by blast
      from distinct_concat_unique[OF dis _ s this xs] t show "t = s" by simp
    qed
  }
  {
    assume no: "\<not> (\<exists>x \<in> set c. \<exists>y. y \<noteq> x \<and> (x, y) \<in> ?E\<^sup>* \<and> (y, x) \<in> ?E\<^sup>*)"
    from wf have "2 \<le> length c" by (simp add: well_formed_cycle_def)
    then obtain x0 where x0: "x0 \<in> set c" by (cases c) auto
    have "z = x0" if z: "z \<in> set c" for z
    proof (rule ccontr)
      assume "z \<noteq> x0"
      then have "x0 \<noteq> z \<and> (z, x0) \<in> ?E\<^sup>* \<and> (x0, z) \<in> ?E\<^sup>*"
        using reach[OF z x0] reach[OF x0 z] by simp
      then have "\<exists>y. y \<noteq> z \<and> (z, y) \<in> ?E\<^sup>* \<and> (y, z) \<in> ?E\<^sup>*" by (rule exI)
      with z have "\<exists>x \<in> set c. \<exists>y. y \<noteq> x \<and> (x, y) \<in> ?E\<^sup>* \<and> (y, x) \<in> ?E\<^sup>*" by (rule bexI[rotated])
      with no show False by simp
    qed
    with x0 have "set c = {x0}" by blast
    then show "\<exists>X. set c = {X}" by blast
    show "\<not> (\<exists>s \<in> set sccs. set c \<subseteq> set s)"
    proof
      assume "\<exists>s \<in> set sccs. set c \<subseteq> set s"
      then obtain s where s: "s \<in> set sccs" and sub: "set c \<subseteq> set s" by blast
      from wf have "2 \<le> length c" by (simp add: well_formed_cycle_def)
      then obtain x where x: "x \<in> set c" by (cases c) auto
      with s sub have "\<exists>s \<in> set sccs. x \<in> set s" by blast
      with component_membership[OF key[OF x] sccs] x no show False by blast
    qed
  }
qed

text \<open>
  Claim C2, as the code has it. \<open>find_cycles\<close> and the SCC finder of the class both
  return, for every list of declarations. Let \<open>c\<close> be a returned sequence that is a
  well-formed cycle. When some module of \<open>c\<close> and some other module reach each other
  along the edges that the SCC finder follows, exactly one returned component contains
  every module of \<open>c\<close>. Otherwise \<open>c\<close> visits a single module and no returned component
  contains it.
\<close>

theorem returned_cycle_in_one_component_or_none:
  "\<exists>cycles sccs.
     find_cycles (load_assemblies files) = Inr cycles \<and>
     find_strongly_connected_components (analyzer_of files) = Inr sccs \<and>
     (\<forall>c \<in> set cycles. well_formed_cycle (load_assemblies files) c \<longrightarrow>
        ((\<exists>x \<in> set c. \<exists>y. y \<noteq> x \<and> (x, y) \<in> (analyzer_edges (analyzer_of files))\<^sup>* \<and>
                              (y, x) \<in> (analyzer_edges (analyzer_of files))\<^sup>*) \<longrightarrow>
            (\<exists>!s. s \<in> set sccs \<and> set c \<subseteq> set s)) \<and>
        (\<not> (\<exists>x \<in> set c. \<exists>y. y \<noteq> x \<and> (x, y) \<in> (analyzer_edges (analyzer_of files))\<^sup>* \<and>
                              (y, x) \<in> (analyzer_edges (analyzer_of files))\<^sup>*) \<longrightarrow>
            (\<exists>X. set c = {X}) \<and> \<not> (\<exists>s \<in> set sccs. set c \<subseteq> set s)))"
proof -
  obtain cycles where c: "find_cycles (load_assemblies files) = Inr cycles"
    using find_cycles_total by blast
  obtain sccs where s: "find_strongly_connected_components (analyzer_of files) = Inr sccs"
    using find_strongly_connected_components_correct[of "analyzer_of files"] by blast
  show ?thesis
  proof (rule exI[of _ cycles], rule exI[of _ sccs], intro conjI ballI)
    show "find_cycles (load_assemblies files) = Inr cycles" by (rule c)
    show "find_strongly_connected_components (analyzer_of files) = Inr sccs" by (rule s)
  next
    fix c assume "c \<in> set cycles"
    show "well_formed_cycle (load_assemblies files) c \<longrightarrow>
        ((\<exists>x \<in> set c. \<exists>y. y \<noteq> x \<and> (x, y) \<in> (analyzer_edges (analyzer_of files))\<^sup>* \<and>
                              (y, x) \<in> (analyzer_edges (analyzer_of files))\<^sup>*) \<longrightarrow>
            (\<exists>!s. s \<in> set sccs \<and> set c \<subseteq> set s)) \<and>
        (\<not> (\<exists>x \<in> set c. \<exists>y. y \<noteq> x \<and> (x, y) \<in> (analyzer_edges (analyzer_of files))\<^sup>* \<and>
                              (y, x) \<in> (analyzer_edges (analyzer_of files))\<^sup>*) \<longrightarrow>
            (\<exists>X. set c = {X}) \<and> \<not> (\<exists>s \<in> set sccs. set c \<subseteq> set s))"
    proof
      assume "well_formed_cycle (load_assemblies files) c"
      then show "((\<exists>x \<in> set c. \<exists>y. y \<noteq> x \<and> (x, y) \<in> (analyzer_edges (analyzer_of files))\<^sup>* \<and>
                              (y, x) \<in> (analyzer_edges (analyzer_of files))\<^sup>*) \<longrightarrow>
            (\<exists>!s. s \<in> set sccs \<and> set c \<subseteq> set s)) \<and>
        (\<not> (\<exists>x \<in> set c. \<exists>y. y \<noteq> x \<and> (x, y) \<in> (analyzer_edges (analyzer_of files))\<^sup>* \<and>
                              (y, x) \<in> (analyzer_edges (analyzer_of files))\<^sup>*) \<longrightarrow>
            (\<exists>X. set c = {X}) \<and> \<not> (\<exists>s \<in> set sccs. set c \<subseteq> set s))"
        using s by (rule well_formed_cycle_components)
    qed
  qed
qed

lemma load_self_loop_pair:
  "load_assemblies self_loop_pair_input = [(''X'', [''X'', ''Y'']), (''Y'', [''X''])]"
  by (simp add: load_assemblies_def self_loop_pair_input_def module_def)

lemma find_cycles_self_loop_pair:
  "find_cycles (load_assemblies self_loop_pair_input) = Inr [[''X'', ''X''], [''X'', ''Y'', ''X'']]"
  by (simp add: load_self_loop_pair find_cycles_def dfs.simps dict_keys_def dict_get_def)

lemma analyzer_self_loop_pair:
  "analyzer_of self_loop_pair_input =
     \<lparr>assemblies = [(''X'', module ''X'' [''X'', ''Y'']), (''Y'', module ''Y'' [''X''])],
      dependency_graph = [(''X'', [''X'', ''Y'']), (''Y'', [''X''])],
      reverse_dependency_graph = [(''X'', [''X'', ''Y'']), (''Y'', [''X''])]\<rparr>"
  by (simp add: analyzer_of_def load_assembly_definitions_def analyzer_init_def
      self_loop_pair_input_def module_def build_dependency_graph_def add_dependency_def
      defaultdict_add_def set_add_def dict_get_def)

lemma scc_self_loop_pair:
  "find_strongly_connected_components (analyzer_of self_loop_pair_input) = Inr [[''Y'', ''X'']]"
  by (simp add: analyzer_self_loop_pair find_strongly_connected_components_def tarjan_def
      tarjan_init_def strongconnect.simps enter_def emit_component_def lowlink_from_child_def
      lowlink_from_stack_def dict_keys_def dict_get_def)

theorem returned_cycle_in_one_component_or_none_witness:
  "find_cycles (load_assemblies self_loop_pair_input) = Inr [[''X'', ''X''], [''X'', ''Y'', ''X'']] \<and>
   find_strongly_connected_components (analyzer_of self_loop_pair_input) = Inr [[''Y'', ''X'']] \<and>
   well_formed_cycle (load_assemblies self_loop_pair_input) [''X'', ''X''] \<and>
   (''X'', ''Y'') \<in> (analyzer_edges (analyzer_of self_loop_pair_input))\<^sup>* \<and>
   (''Y'', ''X'') \<in> (analyzer_edges (analyzer_of self_loop_pair_input))\<^sup>* \<and>
   (\<exists>!s. s \<in> set [[''Y'', ''X'']] \<and> set [''X'', ''X''] \<subseteq> set s)"
proof -
  let ?E = "analyzer_edges (analyzer_of self_loop_pair_input)"
  have wf: "well_formed_cycle (load_assemblies self_loop_pair_input) [''X'', ''X'']"
    by (simp add: well_formed_cycle_def known_edge_def load_self_loop_pair dict_keys_def dict_get_def)
  have "(''X'', ''Y'') \<in> ?E" and "(''Y'', ''X'') \<in> ?E"
    by (simp_all add: analyzer_edges_def tarjan_edges_def analyzer_known_def analyzer_self_loop_pair
        dict_keys_def dict_get_def)
  then have xy: "(''X'', ''Y'') \<in> ?E\<^sup>*" and yx: "(''Y'', ''X'') \<in> ?E\<^sup>*" by blast+
  have ne: "''Y'' \<noteq> ''X''" by simp
  from xy yx ne have "\<exists>y. y \<noteq> ''X'' \<and> (''X'', y) \<in> ?E\<^sup>* \<and> (y, ''X'') \<in> ?E\<^sup>*"
    by (intro exI[of _ "''Y''"]) simp
  then have on: "\<exists>x \<in> set [''X'', ''X'']. \<exists>y. y \<noteq> x \<and> (x, y) \<in> ?E\<^sup>* \<and> (y, x) \<in> ?E\<^sup>*"
    by simp
  from returned_cycle_in_one_component_or_none[of self_loop_pair_input]
  have "\<exists>!s. s \<in> set [[''Y'', ''X'']] \<and> set [''X'', ''X''] \<subseteq> set s"
    unfolding find_cycles_self_loop_pair scc_self_loop_pair using wf on by auto
  with wf xy yx show ?thesis
    by (simp add: find_cycles_self_loop_pair scc_self_loop_pair)
qed

lemma load_self_loop: "load_assemblies self_loop_input = [(''X'', [''X''])]"
  by (simp add: load_assemblies_def self_loop_input_def module_def)

lemma analyzer_self_loop:
  "analyzer_of self_loop_input =
     \<lparr>assemblies = [(''X'', module ''X'' [''X''])],
      dependency_graph = [(''X'', [''X''])],
      reverse_dependency_graph = [(''X'', [''X''])]\<rparr>"
  by (simp add: analyzer_of_def load_assembly_definitions_def analyzer_init_def
      self_loop_input_def module_def build_dependency_graph_def add_dependency_def
      defaultdict_add_def set_add_def dict_get_def)

lemma scc_self_loop:
  "find_strongly_connected_components (analyzer_of self_loop_input) = Inr []"
  by (simp add: analyzer_self_loop find_strongly_connected_components_def tarjan_def tarjan_init_def
      strongconnect.simps enter_def emit_component_def lowlink_from_child_def lowlink_from_stack_def
      dict_keys_def dict_get_def)

text \<open>
  Claim C2 as stated fails: for the single declaration \<open>X \<rightarrow> X\<close>, \<open>find_cycles\<close> returns
  the well-formed cycle \<open>[X, X]\<close> and the SCC finder returns no component.
\<close>

theorem self_loop_cycle_in_no_component:
  "find_cycles (load_assemblies self_loop_input) = Inr [[''X'', ''X'']] \<and>
   well_formed_cycle (load_assemblies self_loop_input) [''X'', ''X''] \<and>
   find_strongly_connected_components (analyzer_of self_loop_input) = Inr []"
  by (simp add: load_self_loop scc_self_loop find_cycles_def dfs.simps dict_keys_def dict_get_def
      well_formed_cycle_def known_edge_def)

section \<open>A module that lists itself\<close>

text \<open>
  \<open>detect_circular_dependencies\<close> reports \<open>[X, X]\<close> for a known module \<open>X\<close> that is among
  its own dependencies: the first time \<open>X\<close> is entered, \<open>X\<close> is the last entry of the
  path when its neighbour \<open>X\<close> is looked at. \<open>self_loop_seen\<close> says that the cycle is
  there once the call for \<open>X\<close> has returned.
\<close>

lemma list_index_append_last:
  "x \<notin> set p \<Longrightarrow> list_index (p @ [x]) x = Some (length p)"
  by (induction p) auto

definition self_loop_seen :: "name \<Rightarrow> detect_state \<Rightarrow> bool" where
  "self_loop_seen X s \<longleftrightarrow>
     (X \<in> visited_d s \<and> X \<notin> rec_stack_d s \<longrightarrow> [X, X] \<in> set (cycles_d s))"

definition detect_post :: "name \<Rightarrow> detect_state \<Rightarrow> detect_state \<Rightarrow> bool" where
  "detect_post X s s' \<longleftrightarrow>
     rec_stack_d s' = rec_stack_d s \<and> visited_d s \<subseteq> visited_d s' \<and>
     set (cycles_d s) \<subseteq> set (cycles_d s') \<and> self_loop_seen X s'"

lemma detect_dfs_self_loop:
  assumes X: "X \<in> set (dict_keys (assemblies a))" "X \<in> set (dict_get (dependency_graph a) X [])"
  shows
  "rec_stack_d s = set pth \<Longrightarrow> self_loop_seen X s \<Longrightarrow>
     \<exists>s'. detect_dfs a node pth s = Inr s' \<and> detect_post X s s' \<and>
       (node \<in> visited_d s' \<or> node \<in> rec_stack_d s)"
  "rec_stack_d s = set pth \<Longrightarrow> self_loop_seen X s \<Longrightarrow>
     \<exists>s'. detect_dfs_neighbors a ns pth s = Inr s' \<and> detect_post X s s' \<and>
       (X \<in> set ns \<and> (\<exists>p. pth = p @ [X] \<and> X \<notin> set p) \<longrightarrow> [X, X] \<in> set (cycles_d s'))"
  using X
proof (induction a node pth s and a ns pth s rule: detect_dfs_detect_dfs_neighbors.induct)
  case (1 a node pth s)
  note inv = 1(2) and seen = 1(3) and X = 1(4,5)
  show ?case
  proof (cases "node \<in> rec_stack_d s")
    case True
    with inv obtain i where i: "list_index pth node = Some i"
      using list_index_None_iff[of pth node] by auto
    from True i seen show ?thesis
      by (auto simp: detect_dfs.simps detect_post_def self_loop_seen_def)
  next
    case nrec: False
    show ?thesis
    proof (cases "node \<in> visited_d s")
      case True
      with nrec seen show ?thesis
        by (simp add: detect_dfs.simps detect_post_def)
    next
      case False
      let ?s1 = "s\<lparr>visited_d := insert node (visited_d s), rec_stack_d := insert node (rec_stack_d s)\<rparr>"
      have inv1: "rec_stack_d ?s1 = set (pth @ [node])" using inv by simp
      have seen1: "self_loop_seen X ?s1" using seen by (auto simp: self_loop_seen_def)
      from 1(1)[OF nrec False inv1 seen1 X] obtain s2 where
        r: "detect_dfs_neighbors a (dict_get (dependency_graph a) node []) (pth @ [node]) ?s1 = Inr s2"
        and post: "detect_post X ?s1 s2"
        and self: "X \<in> set (dict_get (dependency_graph a) node []) \<and>
             (\<exists>p. pth @ [node] = p @ [X] \<and> X \<notin> set p) \<longrightarrow> [X, X] \<in> set (cycles_d s2)"
        by blast
      let ?s' = "s2\<lparr>rec_stack_d := rec_stack_d s2 - {node}\<rparr>"
      from post have rs2: "rec_stack_d s2 = insert node (rec_stack_d s)"
        and v2: "insert node (visited_d s) \<subseteq> visited_d s2"
        and c2: "set (cycles_d s) \<subseteq> set (cycles_d s2)"
        and seen2: "self_loop_seen X s2"
        by (auto simp: detect_post_def)
      have res: "detect_dfs a node pth s = Inr ?s'"
        using nrec False r rs2 by (simp add: detect_dfs.simps)
      have "self_loop_seen X ?s'"
      proof (cases "node = X")
        case True
        with nrec inv have "X \<notin> set pth" by simp
        with self True X(2) have "[X, X] \<in> set (cycles_d s2)" by blast
        then show ?thesis by (simp add: self_loop_seen_def)
      next
        case False
        with seen2 rs2 show ?thesis by (auto simp: self_loop_seen_def)
      qed
      with res rs2 v2 c2 nrec show ?thesis
        by (auto simp: detect_post_def)
    qed
  qed
next
  case (2 a pth s)
  then show ?case by (simp add: detect_post_def)
next
  case (3 a neighbor rest pth s)
  note inv = 3(4) and seen = 3(5) and X = 3(6,7)
  show ?case
  proof (cases "neighbor \<in> set (dict_keys (assemblies a))")
    case False
    with X(1) have "neighbor \<noteq> X" by auto
    with 3(3)[OF False inv seen X] False show ?thesis by auto
  next
    case True
    from 3(1)[OF True inv seen X] obtain s1 where
      r1: "detect_dfs a neighbor pth s = Inr s1" and post1: "detect_post X s s1"
      by blast
    from post1 inv have inv1: "rec_stack_d s1 = set pth" and seen1: "self_loop_seen X s1"
      by (auto simp: detect_post_def)
    from 3(2)[OF True r1 inv1 seen1 X] obtain s' where
      r: "detect_dfs_neighbors a rest pth s1 = Inr s'" and post: "detect_post X s1 s'"
      and self: "X \<in> set rest \<and> (\<exists>p. pth = p @ [X] \<and> X \<notin> set p) \<longrightarrow> [X, X] \<in> set (cycles_d s')"
      by blast
    have "[X, X] \<in> set (cycles_d s1)" if "neighbor = X" "pth = p @ [X]" "X \<notin> set p" for p
    proof -
      from that inv have "X \<in> rec_stack_d s" by simp
      moreover have "list_index pth X = Some (length p)"
        using that by (simp add: list_index_append_last)
      ultimately have "detect_dfs a X pth s = Inr (s\<lparr>cycles_d := cycles_d s @ [drop (length p) pth @ [X]]\<rparr>)"
        by (simp add: detect_dfs.simps)
      with r1 that show ?thesis by auto
    qed
    with post have "neighbor = X \<and> (\<exists>p. pth = p @ [X] \<and> X \<notin> set p) \<longrightarrow> [X, X] \<in> set (cycles_d s')"
      by (auto simp: detect_post_def)
    with self True r1 r post1 post show ?thesis
      by (auto simp: detect_post_def)
  qed
qed


lemma detect_loop_self_loop:
  assumes X: "X \<in> set (dict_keys (assemblies a))" "X \<in> set (dict_get (dependency_graph a) X [])"
  shows "rec_stack_d s = {} \<Longrightarrow> self_loop_seen X s \<Longrightarrow>
     \<exists>s'. detect_loop a roots s = Inr s' \<and> rec_stack_d s' = {} \<and> self_loop_seen X s' \<and>
          set roots \<union> visited_d s \<subseteq> visited_d s'"
proof (induction roots arbitrary: s)
  case Nil
  then show ?case by simp
next
  case (Cons assembly rest)
  show ?case
  proof (cases "assembly \<in> visited_d s")
    case True
    with Cons.IH[OF Cons.prems] show ?thesis by auto
  next
    case False
    from Cons.prems(1) have "rec_stack_d s = set []" by simp
    from detect_dfs_self_loop(1)[OF X this Cons.prems(2), of assembly] Cons.prems(1) obtain s1 where
      r: "detect_dfs a assembly [] s = Inr s1" and post: "detect_post X s s1"
      and v: "assembly \<in> visited_d s1"
      by auto
    from post Cons.prems(1) have e1: "rec_stack_d s1 = {}" and q1: "self_loop_seen X s1"
      and v1: "visited_d s \<subseteq> visited_d s1"
      by (auto simp: detect_post_def)
    from Cons.IH[OF e1 q1] obtain s' where
      r': "detect_loop a rest s1 = Inr s'" and e': "rec_stack_d s' = {}"
      and q': "self_loop_seen X s'" and v': "set rest \<union> visited_d s1 \<subseteq> visited_d s'"
      by blast
    from v v1 v' have "set (assembly # rest) \<union> visited_d s \<subseteq> visited_d s'" by auto
    with r r' e' q' False show ?thesis by simp
  qed
qed

lemma detect_circular_dependencies_self_loop:
  assumes "X \<in> set (dict_keys (assemblies a))" "X \<in> set (dict_get (dependency_graph a) X [])"
  shows "\<exists>cs. detect_circular_dependencies a = Inr cs \<and> [X, X] \<in> set cs"
proof -
  let ?s0 = "\<lparr>visited_d = {}, rec_stack_d = {}, cycles_d = []\<rparr>"
  have "rec_stack_d ?s0 = {}" "self_loop_seen X ?s0" by (simp_all add: self_loop_seen_def)
  from detect_loop_self_loop[OF assms this, of "dict_keys (assemblies a)"] obtain s' where
    "detect_loop a (dict_keys (assemblies a)) ?s0 = Inr s'" "rec_stack_d s' = {}"
    "self_loop_seen X s'" "set (dict_keys (assemblies a)) \<subseteq> visited_d s'"
    by auto
  with assms(1) show ?thesis
    by (auto simp: detect_circular_dependencies_def self_loop_seen_def)
qed

text \<open>
  \<^verbatim>\<open>analyze_dependency_violations\<close> fills two of its four lists, each with pairs of a
  restricted module and an unrestricted one, so never with a pair \<open>(X, X)\<close>.
\<close>

lemma editor_runtime_cycles_editor_check:
  "editor_runtime_cycles (editor_check a n info v)
     = editor_runtime_cycles v @ map (\<lambda>dep. violation_text (n, dep)) (editor_runtime_deps a n info)"
proof -
  have "editor_runtime_cycles (fold (\<lambda>dep v.
                if dep \<in> set (dict_keys (assemblies a)) \<and> \<not> is_editor dep then
                  (if n \<in> set (dict_get (dependency_graph a) dep [])
                   then v\<lparr>editor_runtime_cycles := editor_runtime_cycles v @ [n @ '' <-> '' @ dep]\<rparr>
                   else v)
                else v) deps v)
        = editor_runtime_cycles v @ map (\<lambda>dep. violation_text (n, dep))
            (filter (\<lambda>dep. dep \<in> set (dict_keys (assemblies a)) \<and> \<not> is_editor dep \<and>
                      n \<in> set (dict_get (dependency_graph a) dep [])) deps)" for deps
    by (induction deps arbitrary: v) (auto simp: violation_text_def)
  then show ?thesis by (simp add: editor_check_def editor_runtime_deps_def)
qed

lemma editor_runtime_cycles_test_check [simp]:
  "editor_runtime_cycles (test_check a n info v) = editor_runtime_cycles v"
proof -
  have "editor_runtime_cycles (fold (\<lambda>dep v.
                if dep \<in> set (dict_keys (assemblies a)) \<and> \<not> is_test dep then
                  (if n \<in> set (dict_get (dependency_graph a) dep [])
                   then v\<lparr>test_production_cycles := test_production_cycles v @ [n @ '' <-> '' @ dep]\<rparr>
                   else v)
                else v) deps v) = editor_runtime_cycles v" for deps
    by (induction deps arbitrary: v) auto
  then show ?thesis by (simp add: test_check_def)
qed

lemma editor_runtime_cycles_fold:
  "editor_runtime_cycles (fold (\<lambda>(assembly_name, assembly_info) v.
             test_check a assembly_name assembly_info
               (editor_check a assembly_name assembly_info v)) xs v)
     = editor_runtime_cycles v @ map violation_text (editor_runtime_pairs a xs)"
proof (induction xs arbitrary: v)
  case Nil
  then show ?case by (simp add: editor_runtime_pairs_def)
next
  case (Cons x xs)
  obtain n info where x: "x = (n, info)" by (cases x)
  show ?case
    by (simp add: x Cons.IH editor_runtime_cycles_editor_check editor_runtime_pairs_def
        comp_def)
qed

lemma editor_runtime_cycles_eq:
  "editor_runtime_cycles (analyze_dependency_violations a)
     = map violation_text (editor_runtime_pairs a (assemblies a))"
  by (simp add: analyze_dependency_violations_def editor_runtime_cycles_fold)

lemma circular_core_dependencies_editor_check [simp]:
  "circular_core_dependencies (editor_check a n info v) = circular_core_dependencies v"
proof -
  have "circular_core_dependencies (fold (\<lambda>dep v.
                if dep \<in> set (dict_keys (assemblies a)) \<and> \<not> is_editor dep then
                  (if n \<in> set (dict_get (dependency_graph a) dep [])
                   then v\<lparr>editor_runtime_cycles := editor_runtime_cycles v @ [n @ '' <-> '' @ dep]\<rparr>
                   else v)
                else v) deps v) = circular_core_dependencies v" for deps
    by (induction deps arbitrary: v) auto
  then show ?thesis by (simp add: editor_check_def)
qed

lemma circular_core_dependencies_test_check [simp]:
  "circular_core_dependencies (test_check a n info v) = circular_core_dependencies v"
proof -
  have "circular_core_dependencies (fold (\<lambda>dep v.
                if dep \<in> set (dict_keys (assemblies a)) \<and> \<not> is_test dep then
                  (if n \<in> set (dict_get (dependency_graph a) dep [])
                   then v\<lparr>test_production_cycles := test_production_cycles v @ [n @ '' <-> '' @ dep]\<rparr>
                   else v)
                else v) deps v) = circular_core_dependencies v" for deps
    by (induction deps arbitrary: v) auto
  then show ?thesis by (simp add: test_check_def)
qed

lemma circular_core_dependencies_fold:
  "circular_core_dependencies (fold (\<lambda>(assembly_name, assembly_info) v.
             test_check a assembly_name assembly_info
               (editor_check a assembly_name assembly_info v)) xs v) = circular_core_dependencies v"
  by (induction xs arbitrary: v) auto

lemma analyze_dependency_violations_eq:
  "analyze_dependency_violations a =
     \<lparr>editor_runtime_cycles = map violation_text (editor_runtime_pairs a (assemblies a)),
      test_production_cycles = map violation_text (test_production_pairs a (assemblies a)),
      circular_core_dependencies = [], missing_dependencies = []\<rparr>"
proof (rule violations.equality)
  show "circular_core_dependencies (analyze_dependency_violations a) =
      circular_core_dependencies \<lparr>editor_runtime_cycles = map violation_text (editor_runtime_pairs a (assemblies a)),
      test_production_cycles = map violation_text (test_production_pairs a (assemblies a)),
      circular_core_dependencies = [], missing_dependencies = []\<rparr>"
    by (simp add: analyze_dependency_violations_def circular_core_dependencies_fold)
  show "missing_dependencies (analyze_dependency_violations a) =
      missing_dependencies \<lparr>editor_runtime_cycles = map violation_text (editor_runtime_pairs a (assemblies a)),
      test_production_cycles = map violation_text (test_production_pairs a (assemblies a)),
      circular_core_dependencies = [], missing_dependencies = []\<rparr>"
    by (simp add: analyze_dependency_violations_def missing_dependencies_fold)
qed (simp_all add: editor_runtime_cycles_eq test_production_cycles_eq)

lemma editor_pairs_first_is_editor:
  "(n, d) \<in> set (editor_runtime_pairs a xs) \<Longrightarrow> is_editor n \<and> \<not> is_editor d"
  by (auto simp: editor_runtime_pairs_def editor_runtime_deps_def split: if_splits)

lemma self_loop_keys:
  assumes "last_declaration X files = Some d" and "X \<in> set (references d)"
  shows "X \<in> set (dict_keys (assemblies (analyzer_of files)))"
    and "X \<in> set (dict_get (dependency_graph (analyzer_of files)) X [])"
proof -
  from assms(1) show "X \<in> set (dict_keys (assemblies (analyzer_of files)))"
    by (simp add: dict_keys_map_of map_of_assemblies_analyzer_of)
  from assms(1) have "map_of (assemblies (fst (load_assembly_definitions files analyzer_init))) X = Some d"
    by (simp add: map_of_load_assembly_definitions)
  from build_dependency_graph_references[OF this] assms(2)
  show "X \<in> set (dict_get (dependency_graph (analyzer_of files)) X [])"
    by (auto simp: analyzer_of_def)
qed

text \<open>
  Claim C4, as the code has it. When the last declaration of \<open>X\<close> lists \<open>X\<close> among its
  references, \<open>detect_circular_dependencies\<close> returns the cycle \<open>[X, X]\<close>;
  \<^verbatim>\<open>analyze_dependency_violations\<close> returns its two lists of category pairs and two
  empty lists, and no pair \<open>(X, X)\<close> is among them: there is no self-dependency
  violation; and \<open>X\<close> is in a returned component exactly when \<open>X\<close> and some other module
  reach each other, so a module whose only cycle is its self-reference is in none.
\<close>

theorem self_dependency_cycle_without_violation:
  assumes "last_declaration X files = Some d" and "X \<in> set (references d)"
  shows "(\<exists>cs. detect_circular_dependencies (analyzer_of files) = Inr cs \<and> [X, X] \<in> set cs) \<and>
     analyze_dependency_violations (analyzer_of files) =
       \<lparr>editor_runtime_cycles =
          map violation_text (editor_runtime_pairs (analyzer_of files) (assemblies (analyzer_of files))),
        test_production_cycles =
          map violation_text (test_production_pairs (analyzer_of files) (assemblies (analyzer_of files))),
        circular_core_dependencies = [], missing_dependencies = []\<rparr> \<and>
     (X, X) \<notin> set (editor_runtime_pairs (analyzer_of files) (assemblies (analyzer_of files))) \<and>
     (X, X) \<notin> set (test_production_pairs (analyzer_of files) (assemblies (analyzer_of files))) \<and>
     (\<exists>sccs. find_strongly_connected_components (analyzer_of files) = Inr sccs \<and>
        ((\<exists>s \<in> set sccs. X \<in> set s) \<longleftrightarrow>
         (\<exists>y. y \<noteq> X \<and> (X, y) \<in> (analyzer_edges (analyzer_of files))\<^sup>* \<and>
                       (y, X) \<in> (analyzer_edges (analyzer_of files))\<^sup>*)))"
proof (intro conjI)
  let ?a = "analyzer_of files"
  note k = self_loop_keys[OF assms]
  show "\<exists>cs. detect_circular_dependencies ?a = Inr cs \<and> [X, X] \<in> set cs"
    using k by (rule detect_circular_dependencies_self_loop)
  show "analyze_dependency_violations ?a =
       \<lparr>editor_runtime_cycles = map violation_text (editor_runtime_pairs ?a (assemblies ?a)),
        test_production_cycles = map violation_text (test_production_pairs ?a (assemblies ?a)),
        circular_core_dependencies = [], missing_dependencies = []\<rparr>"
    by (rule analyze_dependency_violations_eq)
  show "(X, X) \<notin> set (editor_runtime_pairs ?a (assemblies ?a))"
    using editor_pairs_first_is_editor[of X X ?a "assemblies ?a"] by blast
  show "(X, X) \<notin> set (test_production_pairs ?a (assemblies ?a))"
    using pairs_first_is_test[of X X ?a "assemblies ?a"] by blast
  obtain sccs where s: "find_strongly_connected_components ?a = Inr sccs"
    using find_strongly_connected_components_correct[of ?a] by blast
  with component_membership[OF k(1) s]
  show "\<exists>sccs. find_strongly_connected_components ?a = Inr sccs \<and>
        ((\<exists>s \<in> set sccs. X \<in> set s) \<longleftrightarrow>
         (\<exists>y. y \<noteq> X \<and> (X, y) \<in> (analyzer_edges ?a)\<^sup>* \<and> (y, X) \<in> (analyzer_edges ?a)\<^sup>*))"
    by blast
qed

lemma detect_self_loop:
  "detect_circular_dependencies (analyzer_of self_loop_input) = Inr [[''X'', ''X'']]"
  by (simp add: analyzer_self_loop detect_circular_dependencies_def detect_dfs.simps
      dict_keys_def dict_get_def)

lemma violations_self_loop:
  "analyze_dependency_violations (analyzer_of self_loop_input) =
     \<lparr>editor_runtime_cycles = [], test_production_cycles = [],
      circular_core_dependencies = [], missing_dependencies = []\<rparr>"
  by (simp add: analyzer_self_loop analyze_dependency_violations_def editor_check_def test_check_def
      is_editor_def is_test_def module_def dict_keys_def dict_get_def)

theorem self_dependency_cycle_without_violation_witness:
  "last_declaration ''X'' self_loop_input = Some (module ''X'' [''X'']) \<and>
   ''X'' \<in> set (references (module ''X'' [''X''])) \<and>
   (\<exists>cs. detect_circular_dependencies (analyzer_of self_loop_input) = Inr cs \<and> [''X'', ''X''] \<in> set cs) \<and>
   (''X'', ''X'') \<notin> set (editor_runtime_pairs (analyzer_of self_loop_input)
                            (assemblies (analyzer_of self_loop_input))) \<and>
   (''X'', ''X'') \<notin> set (test_production_pairs (analyzer_of self_loop_input)
                            (assemblies (analyzer_of self_loop_input))) \<and>
   \<not> (\<exists>y. y \<noteq> ''X'' \<and> (''X'', y) \<in> (analyzer_edges (analyzer_of self_loop_input))\<^sup>* \<and>
                       (y, ''X'') \<in> (analyzer_edges (analyzer_of self_loop_input))\<^sup>*)"
proof -
  have l: "last_declaration ''X'' self_loop_input = Some (module ''X'' [''X''])"
    by (simp add: last_declaration_def self_loop_input_def module_def)
  have r: "''X'' \<in> set (references (module ''X'' [''X'']))"
    by (simp add: module_def)
  from self_dependency_cycle_without_violation[OF l r] l r scc_self_loop
  show ?thesis by auto
qed

text \<open>
  Claim C4 as stated fails: for the single declaration \<open>X \<rightarrow> X\<close> the cycle \<open>[X, X]\<close> is
  reported and no component is returned, but all four lists of violations are empty.
\<close>

theorem self_dependency_not_reported:
  "detect_circular_dependencies (analyzer_of self_loop_input) = Inr [[''X'', ''X'']] \<and>
   analyze_dependency_violations (analyzer_of self_loop_input) =
     \<lparr>editor_runtime_cycles = [], test_production_cycles = [],
      circular_core_dependencies = [], missing_dependencies = []\<rparr> \<and>
   find_strongly_connected_components (analyzer_of self_loop_input) = Inr []"
  by (simp add: detect_self_loop violations_self_loop scc_self_loop)

section \<open>Two runs on the same graph\<close>

text \<open>
  What does not depend on the order in which the dependency sets are visited: the edge
  relation, the lists of violations, which only test membership, and the components as
  sets of modules, which the correctness of \<open>strongconnect\<close> determines.
\<close>

lemma dict_get_same_sets:
  "map (\<lambda>(n, ds). (n, set ds)) g1 = map (\<lambda>(n, ds). (n, set ds)) g2 \<Longrightarrow>
     set (dict_get g1 k []) = set (dict_get g2 k [])"
proof (induction g1 arbitrary: g2)
  case Nil
  then show ?case by simp
next
  case (Cons x g1)
  then obtain y g2' where g2: "g2 = y # g2'" by (cases g2) auto
  obtain n ds where x: "x = (n, ds)" by (cases x)
  obtain m es where y: "y = (m, es)" by (cases y)
  from Cons.prems g2 x y have nm: "n = m" and de: "set ds = set es"
    and rest: "map (\<lambda>(n, ds). (n, set ds)) g1 = map (\<lambda>(n, ds). (n, set ds)) g2'"
    by simp_all
  from Cons.IH[OF rest] have "set (dict_get g1 k []) = set (dict_get g2' k [])" .
  with nm de show ?case by (simp add: g2 x y dict_get_def)
qed

lemma same_graph_edges:
  assumes "same_graph a b"
  shows "analyzer_edges a = analyzer_edges b"
  using assms dict_get_same_sets[of "dependency_graph a" "dependency_graph b"]
  by (simp add: same_graph_def analyzer_edges_def tarjan_edges_def analyzer_known_def)

lemma same_graph_violations:
  assumes "same_graph a b"
  shows "analyze_dependency_violations a = analyze_dependency_violations b"
proof -
  from assms have as: "assemblies a = assemblies b"
    and ds: "\<And>k. set (dict_get (dependency_graph a) k []) = set (dict_get (dependency_graph b) k [])"
    using dict_get_same_sets[of "dependency_graph a" "dependency_graph b"]
    by (simp_all add: same_graph_def)
  have "editor_runtime_deps a = editor_runtime_deps b"
    by (intro ext) (simp add: editor_runtime_deps_def as ds)
  then have e: "editor_runtime_pairs a = editor_runtime_pairs b"
    by (intro ext) (simp add: editor_runtime_pairs_def)
  have "test_production_deps a = test_production_deps b"
    by (intro ext) (simp add: test_production_deps_def as ds)
  then have t: "test_production_pairs a = test_production_pairs b"
    by (intro ext) (simp add: test_production_pairs_def)
  show ?thesis
    by (simp add: analyze_dependency_violations_eq e t as)
qed

lemma component_members_known:
  assumes sccs: "find_strongly_connected_components a = Inr sccs"
    and c: "c \<in> set sccs" and x: "x \<in> set c"
  shows "x \<in> set (dict_keys (assemblies a)) \<and> (\<exists>y \<in> set c. y \<noteq> x)"
proof -
  from find_strongly_connected_components_correct[of a] sccs
  have dis: "distinct (concat sccs)" and len: "\<forall>c \<in> set sccs. 2 \<le> length c"
    and sound: "\<forall>c \<in> set sccs. \<forall>x \<in> set c. \<forall>y \<in> set c. (x, y) \<in> (analyzer_edges a)\<^sup>*"
    by auto
  from dis c have "distinct c" by (auto simp: distinct_concat_iff)
  moreover from len c have "2 \<le> length c" by blast
  ultimately have "2 \<le> card (set c)" by (simp add: distinct_card)
  from card_two_distinct[OF this] obtain u v where "u \<in> set c" "v \<in> set c" "u \<noteq> v" by blast
  then obtain y where y: "y \<in> set c" and yx: "y \<noteq> x" by (cases "u = x") auto
  from sound c x y have "(y, x) \<in> (analyzer_edges a)\<^sup>*" by blast
  from rtrancl_target_known[OF this yx] y yx show ?thesis by blast
qed

lemma components_determined:
  assumes sa: "find_strongly_connected_components a = Inr sa"
    and sb: "find_strongly_connected_components b = Inr sb"
    and E: "analyzer_edges a = analyzer_edges b"
    and K: "assemblies a = assemblies b"
  shows "set ` set sa \<subseteq> set ` set sb"
proof
  fix C assume "C \<in> set ` set sa"
  then obtain c where c: "c \<in> set sa" and C: "C = set c" by blast
  let ?E = "analyzer_edges a"
  from find_strongly_connected_components_correct[of a] sa
  have disa: "distinct (concat sa)"
    and sounda: "\<And>c x y. c \<in> set sa \<Longrightarrow> x \<in> set c \<Longrightarrow> y \<in> set c \<Longrightarrow> (x, y) \<in> ?E\<^sup>*"
    and compla: "\<And>x y. x \<in> set (dict_keys (assemblies a)) \<Longrightarrow> y \<in> set (dict_keys (assemblies a)) \<Longrightarrow>
         x \<noteq> y \<Longrightarrow> (x, y) \<in> ?E\<^sup>* \<Longrightarrow> (y, x) \<in> ?E\<^sup>* \<Longrightarrow> \<exists>s \<in> set sa. x \<in> set s \<and> y \<in> set s"
    by auto
  from find_strongly_connected_components_correct[of b] sb E K
  have disb: "distinct (concat sb)"
    and soundb: "\<And>c x y. c \<in> set sb \<Longrightarrow> x \<in> set c \<Longrightarrow> y \<in> set c \<Longrightarrow> (x, y) \<in> ?E\<^sup>*"
    and complb: "\<And>x y. x \<in> set (dict_keys (assemblies a)) \<Longrightarrow> y \<in> set (dict_keys (assemblies a)) \<Longrightarrow>
         x \<noteq> y \<Longrightarrow> (x, y) \<in> ?E\<^sup>* \<Longrightarrow> (y, x) \<in> ?E\<^sup>* \<Longrightarrow> \<exists>s \<in> set sb. x \<in> set s \<and> y \<in> set s"
    by auto
  have ka: "x \<in> set (dict_keys (assemblies a))" if "d \<in> set sa" "x \<in> set d" for d x
    using component_members_known[OF sa that] by blast
  have kb: "x \<in> set (dict_keys (assemblies a))" if "d \<in> set sb" "x \<in> set d" for d x
    using component_members_known[OF sb that] K by simp
  from find_strongly_connected_components_correct[of a] sa c have "2 \<le> length c" by auto
  then obtain x where x: "x \<in> set c" by (cases c) auto
  from component_members_known[OF sa c x] obtain y where y: "y \<in> set c" and yx: "y \<noteq> x" by blast
  from complb[OF ka[OF c x] ka[OF c y] _ sounda[OF c x y] sounda[OF c y x]] yx
  obtain d where d: "d \<in> set sb" and xd: "x \<in> set d" by blast
  have "set c = set d"
  proof (intro equalityI subsetI)
    fix z assume z: "z \<in> set c"
    show "z \<in> set d"
    proof (cases "z = x")
      case True
      with xd show ?thesis by simp
    next
      case False
      from complb[OF ka[OF c z] ka[OF c x] False sounda[OF c z x] sounda[OF c x z]]
      obtain d' where d': "d' \<in> set sb" and zd: "z \<in> set d'" and xd': "x \<in> set d'" by blast
      from distinct_concat_unique[OF disb d d' xd xd'] zd show ?thesis by simp
    qed
  next
    fix z assume z: "z \<in> set d"
    show "z \<in> set c"
    proof (cases "z = x")
      case True
      with x show ?thesis by simp
    next
      case False
      from compla[OF kb[OF d z] kb[OF d xd] False soundb[OF d z xd] soundb[OF d xd z]]
      obtain c' where c': "c' \<in> set sa" and zc: "z \<in> set c'" and xc': "x \<in> set c'" by blast
      from distinct_concat_unique[OF disa c c' x xc'] zc show ?thesis by simp
    qed
  qed
  with d C show "C \<in> set ` set sb" by blast
qed

text \<open>
  Claim C8, as the code has it. Two runs on the same graph, whatever the order in which
  each visits the members of the dependency sets, return the same lists of violations
  and the same strongly connected components as sets of modules. The order of the
  components, of the members of a component and of the reported cycles is not part of
  the statement: it follows the order of the visits.
\<close>

theorem set_order_independent_results:
  assumes "same_graph a b"
  shows "analyze_dependency_violations a = analyze_dependency_violations b \<and>
     (\<exists>sa sb. find_strongly_connected_components a = Inr sa \<and>
               find_strongly_connected_components b = Inr sb \<and>
               set ` set sa = set ` set sb)"
proof -
  obtain sa where sa: "find_strongly_connected_components a = Inr sa"
    using find_strongly_connected_components_correct[of a] by blast
  obtain sb where sb: "find_strongly_connected_components b = Inr sb"
    using find_strongly_connected_components_correct[of b] by blast
  from assms have K: "assemblies a = assemblies b" by (simp add: same_graph_def)
  note E = same_graph_edges[OF assms]
  from components_determined[OF sa sb E K] components_determined[OF sb sa E[symmetric] K[symmetric]]
  have "set ` set sa = set ` set sb" by blast
  with sa sb same_graph_violations[OF assms] show ?thesis by blast
qed

lemma analyzer_fork:
  "analyzer_of fork_input =
     \<lparr>assemblies = [(''A'', module ''A'' [''B'', ''C'']), (''B'', module ''B'' [''A'']),
                    (''C'', module ''C'' [''A''])],
      dependency_graph = [(''A'', [''B'', ''C'']), (''B'', [''A'']), (''C'', [''A''])],
      reverse_dependency_graph = [(''B'', [''A'']), (''C'', [''A'']), (''A'', [''B'', ''C''])]\<rparr>"
  by (simp add: analyzer_of_def load_assembly_definitions_def analyzer_init_def
      fork_input_def module_def build_dependency_graph_def add_dependency_def
      defaultdict_add_def set_add_def dict_get_def)

lemma same_graph_fork: "same_graph (analyzer_of fork_input) fork_other_order"
  by (auto simp: same_graph_def fork_other_order_def analyzer_fork)

lemma detect_fork:
  "detect_circular_dependencies (analyzer_of fork_input) = Inr [[''A'', ''B'', ''A''], [''A'', ''C'', ''A'']]"
  by (simp add: analyzer_fork detect_circular_dependencies_def detect_dfs.simps
      dict_keys_def dict_get_def)

lemma detect_fork_other:
  "detect_circular_dependencies fork_other_order = Inr [[''A'', ''C'', ''A''], [''A'', ''B'', ''A'']]"
  by (simp add: fork_other_order_def analyzer_fork detect_circular_dependencies_def detect_dfs.simps
      dict_keys_def dict_get_def)

lemma scc_fork:
  "find_strongly_connected_components (analyzer_of fork_input) = Inr [[''C'', ''B'', ''A'']]"
  by (simp add: analyzer_fork find_strongly_connected_components_def tarjan_def tarjan_init_def
      strongconnect.simps enter_def emit_component_def lowlink_from_child_def lowlink_from_stack_def
      dict_keys_def dict_get_def)

lemma scc_fork_other:
  "find_strongly_connected_components fork_other_order = Inr [[''B'', ''C'', ''A'']]"
  by (simp add: fork_other_order_def analyzer_fork find_strongly_connected_components_def tarjan_def
      tarjan_init_def strongconnect.simps enter_def emit_component_def lowlink_from_child_def
      lowlink_from_stack_def dict_keys_def dict_get_def)

theorem set_order_independent_results_witness:
  "same_graph (analyzer_of fork_input) fork_other_order \<and>
   analyze_dependency_violations (analyzer_of fork_input) = analyze_dependency_violations fork_other_order \<and>
   set ` set [[''C'', ''B'', ''A'']] = set ` set [[''B'', ''C'', ''A'']]"
  using set_order_independent_results[OF same_graph_fork] same_graph_fork
  by (auto simp: scc_fork scc_fork_other)

text \<open>
  Claim C8 as stated fails: on the graph \<open>A \<rightarrow> {B, C}\<close>, \<open>B \<rightarrow> {A}\<close>, \<open>C \<rightarrow> {A}\<close> the two
  orders of visiting \<open>{B, C}\<close> give the cycles in different orders and the members of
  the component in different orders.
\<close>

theorem set_order_changes_output:
  "same_graph (analyzer_of fork_input) fork_other_order \<and>
   detect_circular_dependencies (analyzer_of fork_input)
     = Inr [[''A'', ''B'', ''A''], [''A'', ''C'', ''A'']] \<and>
   detect_circular_dependencies fork_other_order
     = Inr [[''A'', ''C'', ''A''], [''A'', ''B'', ''A'']] \<and>
   find_strongly_connected_components (analyzer_of fork_input) = Inr [[''C'', ''B'', ''A'']] \<and>
   find_strongly_connected_components fork_other_order = Inr [[''B'', ''C'', ''A'']]"
  by (simp add: same_graph_fork detect_fork detect_fork_other scc_fork scc_fork_other)

end
